theory Spec2Isabelle
  imports Main "HOL-Library.Word"
begin

unbundle bit_operations_syntax

section \<open>Host values\<close>

text \<open>
  The buffer class of \<^verbatim>\<open>src/src/index.ts\<close> sits on two host facilities: JavaScript
  numbers and the Node byte container. Offsets, lengths and integer values are modelled as
  \<open>int\<close> (the arguments are integral numbers, as the TypeScript signatures of the
  second copy of the class declare them, so the guard
  \<^verbatim>\<open>typeof x !== "number" || x % 1 !== 0\<close> never fires on them); the conversions
  \<^verbatim>\<open>x >>> 0\<close> and \<^verbatim>\<open>x | 0\<close> are written out. A byte store is a list of
  8-bit words.
\<close>

type_synonym byte = "8 word"

definition toUint32 :: "int \<Rightarrow> int" where
  \<comment> \<open>\<^verbatim>\<open>x >>> 0\<close>\<close>
  "toUint32 x = take_bit 32 x"

definition toInt32 :: "int \<Rightarrow> int" where
  \<comment> \<open>\<^verbatim>\<open>x | 0\<close>\<close>
  "toInt32 x = signed_take_bit 31 x"

definition at :: "byte list \<Rightarrow> int \<Rightarrow> byte option" where
  \<comment> \<open>\<^verbatim>\<open>buffer[i]\<close>: \<^verbatim>\<open>undefined\<close> outside the store\<close>
  "at buf i = (if 0 \<le> i \<and> i < int (length buf) then Some (buf ! nat i) else None)"

definition put :: "byte list \<Rightarrow> int \<Rightarrow> byte \<Rightarrow> byte list" where
  \<comment> \<open>\<^verbatim>\<open>buffer[i] = v\<close>: a store outside the typed array is dropped\<close>
  "put buf i v = (if 0 \<le> i \<and> i < int (length buf) then buf[nat i := v] else buf)"

definition allocUnsafe :: "(nat \<Rightarrow> byte) \<Rightarrow> nat \<Rightarrow> byte list" where
  \<comment> \<open>\<^verbatim>\<open>Buffer.allocUnsafe(n)\<close>: \<open>n\<close> bytes of whatever the memory \<open>mem\<close> holds\<close>
  "allocUnsafe mem n = map mem [0..<n]"

definition zeroed :: "nat \<Rightarrow> byte" where
  \<comment> \<open>a memory that happens to hold zero bytes, for the concrete examples\<close>
  "zeroed n = 0"

datatype error = TypeError | RangeError | TruncatedError
  \<comment> \<open>\<open>TruncatedError\<close> is \<^verbatim>\<open>Error("Truncated")\<close> with its \<^verbatim>\<open>truncated\<close> property set\<close>

definition blit :: "byte list \<Rightarrow> nat \<Rightarrow> byte list \<Rightarrow> byte list" where
  \<comment> \<open>overwrite \<open>target\<close> from index \<open>i\<close> with as much of \<open>chunk\<close> as fits\<close>
  "blit target i chunk =
     take i target @ take (length target - i) chunk @ drop (i + length chunk) target"

definition Buffer_copy :: "byte list \<Rightarrow> byte list \<Rightarrow> int \<Rightarrow> int \<Rightarrow> int \<Rightarrow> error + byte list" where
  \<comment> \<open>\<^verbatim>\<open>source.copy(target, targetStart, sourceStart, sourceEnd)\<close> of the host, returning
      the target: the bytes that fit are copied, indices outside the source are refused\<close>
  "Buffer_copy source target targetStart sourceStart sourceEnd =
     (if targetStart < 0 \<or> sourceStart < 0 \<or> sourceStart > int (length source) \<or> sourceEnd < 0
      then Inl RangeError
      else Inr (blit target (nat targetStart)
                  (drop (nat sourceStart) (take (nat sourceEnd) source))))"

definition Buffer_write :: "byte list \<Rightarrow> byte list \<Rightarrow> int \<Rightarrow> int \<Rightarrow> error + (byte list \<times> int)" where
  \<comment> \<open>\<^verbatim>\<open>buffer.write(str, offset, length, "utf8")\<close> of the host, on the encoded bytes
      of \<open>str\<close>: returns the store and the number of bytes written. (When not all bytes fit
      the host stops at a character boundary; the callers below grow the store first.)\<close>
  "Buffer_write buf encoded offset len =
     (if offset < 0 \<or> offset > int (length buf) \<or> len < 0 then Inl RangeError
      else
        let chunk = take (min (nat len) (length buf - nat offset)) encoded
        in Inr (blit buf (nat offset) chunk, int (length chunk)))"

definition Buffer_slice :: "byte list \<Rightarrow> int \<Rightarrow> int \<Rightarrow> byte list" where
  \<comment> \<open>the bytes \<^verbatim>\<open>buffer.toString(enc, start, end)\<close> decodes; indices are clamped\<close>
  "Buffer_slice buf start end' = drop (nat start) (take (nat end') buf)"

section \<open>The buffer and its capacity\<close>

record SmartBuffer =
  buffer :: "byte list"
  woffset :: int
  roffset :: int
  noAssert :: bool

definition capacity :: "SmartBuffer \<Rightarrow> int" where
  "capacity bb = int (length (buffer bb))"

text \<open>
  Every method returns the outcome (an error or a value) together with the buffer as the
  call leaves it, since a throw keeps whatever the method had already assigned.
\<close>

definition resize :: "(nat \<Rightarrow> byte) \<Rightarrow> int \<Rightarrow> SmartBuffer \<Rightarrow> (error + unit) \<times> SmartBuffer" where
  "resize mem cap bb =
     (let cap1 = (if noAssert bb then cap else toInt32 cap) in
      if \<not> noAssert bb \<and> cap1 < 0 then (Inl TypeError, bb)
      else if int (length (buffer bb)) < cap1
      then (Inr (), bb\<lparr>buffer := buffer bb @ drop (length (buffer bb)) (allocUnsafe mem (nat cap1))\<rparr>)
      else (Inr (), bb))"

definition ensureCapacity :: "(nat \<Rightarrow> byte) \<Rightarrow> int \<Rightarrow> SmartBuffer \<Rightarrow> (error + unit) \<times> SmartBuffer" where
  "ensureCapacity mem cap bb =
     (let current = int (length (buffer bb)) in
      if current < cap then resize mem (if current * 2 > cap then current * 2 else cap) bb
      else (Inr (), bb))"

definition grow :: "(nat \<Rightarrow> byte) \<Rightarrow> int \<Rightarrow> SmartBuffer \<Rightarrow> (error + unit) \<times> SmartBuffer" where
  \<comment> \<open>the block every write repeats:
      \<^verbatim>\<open>let capacity = this.buffer.length;
      if (offset > capacity) this.resize((capacity *= 2) > offset ? capacity : offset)\<close>\<close>
  "grow mem offset bb =
     (let cap = int (length (buffer bb)) in
      if offset > cap then resize mem (if cap * 2 > offset then cap * 2 else offset) bb
      else (Inr (), bb))"

section \<open>Varint and zig-zag codec, 32 bit\<close>

definition calculateVarint32 :: "int \<Rightarrow> int" where
  "calculateVarint32 v =
     (let x = toUint32 v in
      if x < 2 ^ 7 then 1
      else if x < 2 ^ 14 then 2
      else if x < 2 ^ 21 then 3
      else if x < 2 ^ 28 then 4
      else 5)"

definition zigZagEncode32 :: "int \<Rightarrow> int" where
  \<comment> \<open>\<^verbatim>\<open>(((n |= 0) << 1) ^ (n >> 31)) >>> 0\<close>\<close>
  "zigZagEncode32 n =
     (let w = (word_of_int n :: 32 word) in uint (push_bit 1 w XOR signed_drop_bit 31 w))"

definition zigZagDecode32 :: "int \<Rightarrow> int" where
  \<comment> \<open>\<^verbatim>\<open>((n >>> 1) ^ -(n & 1)) | 0\<close>\<close>
  "zigZagDecode32 n =
     (let w = (word_of_int n :: 32 word) in sint (drop_bit 1 w XOR - (w AND 1)))"

function writeVarint32_loop :: "byte list \<Rightarrow> int \<Rightarrow> 32 word \<Rightarrow> byte list \<times> int" where
  "writeVarint32_loop buf offset v =
     (if v \<ge> 0x80
      then writeVarint32_loop (put buf offset (ucast ((v AND 0x7f) OR 0x80))) (offset + 1)
             (drop_bit 7 v)
      else (put buf offset (ucast v), offset + 1))"
  by pat_completeness auto
termination
proof (relation "measure (\<lambda>(buf, offset, v). unat v)")
  show "wf (measure (\<lambda>(buf :: byte list, offset :: int, v :: 32 word). unat v))"
    by simp
next
  fix buf :: "byte list" and offset :: int and v :: "32 word"
  assume "0x80 \<le> v"
  then have "0x80 \<le> unat v"
    by (simp add: word_le_nat_alt)
  moreover have "unat (drop_bit 7 v) = unat v div 2 ^ 7"
    by (simp add: drop_bit_eq_div unat_div)
  ultimately have "unat (drop_bit 7 v) < unat v"
    by simp
  then show "((put buf offset (ucast (v AND 0x7f OR 0x80)), offset + 1, drop_bit 7 v),
              (buf, offset, v)) \<in> measure (\<lambda>(buf, offset, v). unat v)"
    by simp
qed

datatype written = This | Written int
  \<comment> \<open>a write returns \<^verbatim>\<open>this\<close> when the offset was omitted, else the number of bytes\<close>

definition writeVarint32 ::
  "(nat \<Rightarrow> byte) \<Rightarrow> int \<Rightarrow> int option \<Rightarrow> SmartBuffer \<Rightarrow> (error + written) \<times> SmartBuffer" where
  "writeVarint32 mem val offset bb =
     (let relative = (offset = None);
          offset0 = (case offset of None \<Rightarrow> woffset bb | Some off \<Rightarrow> off);
          val1 = (if noAssert bb then val else toInt32 val);
          offset1 = (if noAssert bb then offset0 else toUint32 offset0)
      in if \<not> noAssert bb \<and> (offset1 < 0 \<or> offset1 + 0 > int (length (buffer bb)))
         then (Inl RangeError, bb)
         else
           let size = calculateVarint32 val1 in
           case grow mem (offset1 + size) bb of
             (Inl e, bb1) \<Rightarrow> (Inl e, bb1)
           | (Inr _, bb1) \<Rightarrow>
               let (buf, offset2) = writeVarint32_loop (buffer bb1) offset1 (word_of_int val1)
               in if relative then (Inr This, bb1\<lparr>buffer := buf, woffset := offset2\<rparr>)
                  else (Inr (Written size), bb1\<lparr>buffer := buf\<rparr>))"

definition writeVarint32ZigZag ::
  "(nat \<Rightarrow> byte) \<Rightarrow> int \<Rightarrow> int option \<Rightarrow> SmartBuffer \<Rightarrow> (error + written) \<times> SmartBuffer" where
  "writeVarint32ZigZag mem val offset bb = writeVarint32 mem (zigZagEncode32 val) offset bb"

function readVarint32_loop ::
  "byte list \<Rightarrow> bool \<Rightarrow> int \<Rightarrow> nat \<Rightarrow> 32 word \<Rightarrow> error + (32 word \<times> int \<times> nat)" where
  "readVarint32_loop buf na offset c v =
     (if \<not> na \<and> offset > int (length buf) then Inl TruncatedError
      else case at buf offset of
        None \<Rightarrow> Inr (v, offset + 1, c + 1)
      | Some b \<Rightarrow>
          let v1 = (if c < 5 then v OR push_bit (7 * c) (ucast (b AND 0x7f)) else v) in
          if b AND 0x80 \<noteq> 0 then readVarint32_loop buf na (offset + 1) (c + 1) v1
          else Inr (v1, offset + 1, c + 1))"
  by pat_completeness auto
termination
  by (relation "measure (\<lambda>(buf, na, offset, c, v). nat (int (length buf) - offset))")
     (auto simp: at_def split: if_splits)

datatype NumberValue = Number int | SNumber int int
  \<comment> \<open>\<^verbatim>\<open>number | { value, length }\<close>\<close>

definition readVarint32 :: "int option \<Rightarrow> SmartBuffer \<Rightarrow> (error + NumberValue) \<times> SmartBuffer" where
  "readVarint32 offset bb =
     (let relative = (offset = None);
          offset0 = (case offset of None \<Rightarrow> roffset bb | Some off \<Rightarrow> off);
          offset1 = (if noAssert bb then offset0 else toUint32 offset0)
      in if \<not> noAssert bb \<and> (offset1 < 0 \<or> offset1 + 1 > int (length (buffer bb)))
         then (Inl RangeError, bb)
         else case readVarint32_loop (buffer bb) (noAssert bb) offset1 0 0 of
           Inl e \<Rightarrow> (Inl e, bb)
         | Inr (v, offset2, c) \<Rightarrow>
             if relative then (Inr (Number (sint v)), bb\<lparr>roffset := offset2\<rparr>)
             else (Inr (SNumber (sint v) (int c)), bb))"

definition readVarint32ZigZag :: "int option \<Rightarrow> SmartBuffer \<Rightarrow> (error + NumberValue) \<times> SmartBuffer" where
  "readVarint32ZigZag offset bb =
     (case readVarint32 offset bb of
        (Inl e, bb1) \<Rightarrow> (Inl e, bb1)
      | (Inr (SNumber v l), bb1) \<Rightarrow> (Inr (SNumber (zigZagDecode32 v) l), bb1)
      | (Inr (Number v), bb1) \<Rightarrow> (Inr (Number (zigZagDecode32 v)), bb1))"

section \<open>Fixed-width codec\<close>

text \<open>
  \<^verbatim>\<open>_checkRead\<close> and \<^verbatim>\<open>_checkWrite\<close> (the leading underscore is dropped). Integer values
  always pass the value test of \<^verbatim>\<open>_checkWrite\<close>, so the value is not an argument here.
\<close>

definition checkRead :: "int option \<Rightarrow> int \<Rightarrow> SmartBuffer \<Rightarrow> (error + int) \<times> SmartBuffer" where
  "checkRead offset bytes bb =
     (let offset1 = (case offset of None \<Rightarrow> roffset bb | Some off \<Rightarrow> off);
          bb1 = (case offset of None \<Rightarrow> bb\<lparr>roffset := roffset bb + bytes\<rparr> | Some _ \<Rightarrow> bb)
      in if \<not> noAssert bb1 \<and> (offset1 < 0 \<or> offset1 + bytes > int (length (buffer bb1)))
         then (Inl RangeError, bb1)
         else (Inr offset1, bb1))"

definition checkWrite ::
  "(nat \<Rightarrow> byte) \<Rightarrow> int option \<Rightarrow> int \<Rightarrow> SmartBuffer \<Rightarrow> (error + int) \<times> SmartBuffer" where
  "checkWrite mem offset bytes bb =
     (let offset0 = (case offset of None \<Rightarrow> woffset bb | Some off \<Rightarrow> off);
          bb1 = (case offset of None \<Rightarrow> bb\<lparr>woffset := woffset bb + bytes\<rparr> | Some _ \<Rightarrow> bb);
          result = toUint32 offset0
      in if \<not> noAssert bb1 \<and> (result < 0 \<or> result + 0 > int (length (buffer bb1)))
         then (Inl RangeError, bb1)
         else case grow mem (result + bytes) bb1 of
           (Inl e, bb2) \<Rightarrow> (Inl e, bb2)
         | (Inr _, bb2) \<Rightarrow> (Inr result, bb2))"



definition readUInt8 :: "int option \<Rightarrow> SmartBuffer \<Rightarrow> (error + int option) \<times> SmartBuffer" where
  "readUInt8 offset bb =
     (case checkRead offset 1 bb of
        (Inl e, bb1) \<Rightarrow> (Inl e, bb1)
      | (Inr off, bb1) \<Rightarrow> (Inr (map_option uint (at (buffer bb1) off)), bb1))"





definition writeInt8 ::
  "(nat \<Rightarrow> byte) \<Rightarrow> int \<Rightarrow> int option \<Rightarrow> SmartBuffer \<Rightarrow> (error + unit) \<times> SmartBuffer" where
  "writeInt8 mem val offset bb =
     (let v = toInt32 val in
      case checkWrite mem offset 1 bb of
        (Inl e, bb1) \<Rightarrow> (Inl e, bb1)
      | (Inr off, bb1) \<Rightarrow> (Inr (), bb1\<lparr>buffer := put (buffer bb1) off (of_int v)\<rparr>))"

definition writeUInt8 ::
  "(nat \<Rightarrow> byte) \<Rightarrow> int \<Rightarrow> int option \<Rightarrow> SmartBuffer \<Rightarrow> (error + unit) \<times> SmartBuffer" where
  "writeUInt8 mem val offset bb =
     (let v = toUint32 val in
      case checkWrite mem offset 1 bb of
        (Inl e, bb1) \<Rightarrow> (Inl e, bb1)
      | (Inr off, bb1) \<Rightarrow> (Inr (), bb1\<lparr>buffer := put (buffer bb1) off (of_int v)\<rparr>))"

definition writeUInt16LE ::
  "(nat \<Rightarrow> byte) \<Rightarrow> int \<Rightarrow> int option \<Rightarrow> SmartBuffer \<Rightarrow> (error + unit) \<times> SmartBuffer" where
  "writeUInt16LE mem val offset bb =
     (let v = toUint32 val in
      case checkWrite mem offset 2 bb of
        (Inl e, bb1) \<Rightarrow> (Inl e, bb1)
      | (Inr off, bb1) \<Rightarrow>
          (Inr (), bb1\<lparr>buffer := put (put (buffer bb1) (off + 1) (of_int (drop_bit 8 v))) off
                                   (of_int v)\<rparr>))"

definition writeUInt16BE ::
  "(nat \<Rightarrow> byte) \<Rightarrow> int \<Rightarrow> int option \<Rightarrow> SmartBuffer \<Rightarrow> (error + unit) \<times> SmartBuffer" where
  "writeUInt16BE mem val offset bb =
     (let v = toUint32 val in
      case checkWrite mem offset 2 bb of
        (Inl e, bb1) \<Rightarrow> (Inl e, bb1)
      | (Inr off, bb1) \<Rightarrow>
          (Inr (), bb1\<lparr>buffer := put (put (buffer bb1) off (of_int (drop_bit 8 v))) (off + 1)
                                   (of_int v)\<rparr>))"

definition put32BE :: "byte list \<Rightarrow> int \<Rightarrow> int \<Rightarrow> byte list" where
  \<comment> \<open>the four stores shared by \<^verbatim>\<open>writeInt32BE\<close> and \<^verbatim>\<open>writeUInt32BE\<close>;
      \<^verbatim>\<open>value >>> n\<close> shifts the unsigned reading of the value\<close>
  "put32BE buf off v =
     put (put (put (put buf off (of_int (drop_bit 24 (toUint32 v))))
                 (off + 1) (of_int (drop_bit 16 (toUint32 v))))
            (off + 2) (of_int (drop_bit 8 (toUint32 v))))
       (off + 3) (of_int v)"

definition writeInt32BE ::
  "(nat \<Rightarrow> byte) \<Rightarrow> int \<Rightarrow> int option \<Rightarrow> SmartBuffer \<Rightarrow> (error + unit) \<times> SmartBuffer" where
  "writeInt32BE mem val offset bb =
     (let v = toInt32 val in
      case checkWrite mem offset 4 bb of
        (Inl e, bb1) \<Rightarrow> (Inl e, bb1)
      | (Inr off, bb1) \<Rightarrow> (Inr (), bb1\<lparr>buffer := put32BE (buffer bb1) off v\<rparr>))"

definition writeUInt32BE ::
  "(nat \<Rightarrow> byte) \<Rightarrow> int \<Rightarrow> int option \<Rightarrow> SmartBuffer \<Rightarrow> (error + unit) \<times> SmartBuffer" where
  "writeUInt32BE mem val offset bb =
     (let v = toUint32 val in
      case checkWrite mem offset 4 bb of
        (Inl e, bb1) \<Rightarrow> (Inl e, bb1)
      | (Inr off, bb1) \<Rightarrow> (Inr (), bb1\<lparr>buffer := put32BE (buffer bb1) off v\<rparr>))"

section \<open>C-string codec\<close>

text \<open>
  A JavaScript string is its sequence of UTF-16 code units. The UTF-8 encoder and decoder
  belong to the host; they are the parameters \<open>utf8\<close> and \<open>decode\<close>.
\<close>

type_synonym jsstring = "nat list"

datatype StringValue = Str jsstring | SString jsstring int
  \<comment> \<open>\<^verbatim>\<open>string | { string, length }\<close>\<close>

definition writeCString ::
  "(nat \<Rightarrow> byte) \<Rightarrow> (jsstring \<Rightarrow> byte list) \<Rightarrow> jsstring \<Rightarrow> int option \<Rightarrow> SmartBuffer
     \<Rightarrow> (error + written) \<times> SmartBuffer" where
  "writeCString mem utf8 str offset bb =
     (let relative = (offset = None);
          offset0 = (case offset of None \<Rightarrow> woffset bb | Some off \<Rightarrow> off)
      in if \<not> noAssert bb \<and> 0 \<in> set str then (Inl TypeError, bb)
         else
           let offset1 = (if noAssert bb then offset0 else toUint32 offset0) in
           if \<not> noAssert bb \<and> (offset1 < 0 \<or> offset1 + 0 > int (length (buffer bb)))
           then (Inl RangeError, bb)
           else
             let k = int (length (utf8 str)) in
             case grow mem (offset1 + (k + 1)) bb of
               (Inl e, bb1) \<Rightarrow> (Inl e, bb1)
             | (Inr _, bb1) \<Rightarrow>
                 (case Buffer_write (buffer bb1) (utf8 str) offset1 k of
                    Inl e \<Rightarrow> (Inl e, bb1)
                  | Inr (buf, n) \<Rightarrow>
                      let offset2 = offset1 + n;
                          buf2 = put buf offset2 0;
                          offset3 = offset2 + 1
                      in if relative then (Inr This, bb1\<lparr>buffer := buf2, woffset := offset3\<rparr>)
                         else (Inr (Written k), bb1\<lparr>buffer := buf2\<rparr>)))"

function readCString_loop :: "byte list \<Rightarrow> int \<Rightarrow> error + int" where
  "readCString_loop buf offset =
     (if offset \<ge> int (length buf) then Inl RangeError
      else if at buf offset = Some 0 then Inr (offset + 1)
      else readCString_loop buf (offset + 1))"
  by pat_completeness auto
termination
  by (relation "measure (\<lambda>(buf, offset). nat (int (length buf) - offset))") auto

definition readCString ::
  "(byte list \<Rightarrow> jsstring) \<Rightarrow> int option \<Rightarrow> SmartBuffer \<Rightarrow> (error + StringValue) \<times> SmartBuffer" where
  "readCString decode offset bb =
     (let relative = (offset = None);
          offset0 = (case offset of None \<Rightarrow> roffset bb | Some off \<Rightarrow> off);
          offset1 = (if noAssert bb then offset0 else toUint32 offset0)
      in if \<not> noAssert bb \<and> (offset1 < 0 \<or> offset1 + 1 > int (length (buffer bb)))
         then (Inl RangeError, bb)
         else case readCString_loop (buffer bb) offset1 of
           Inl e \<Rightarrow> (Inl e, bb)
         | Inr offset2 \<Rightarrow>
             let str = decode (Buffer_slice (buffer bb) offset1 (offset2 - 1))
             in if relative then (Inr (Str str), bb\<lparr>roffset := offset2\<rparr>)
                else (Inr (SString str (offset2 - offset1)), bb))"

section \<open>Bit sets\<close>

text \<open>
  \<^verbatim>\<open>writeBitSet\<close> takes an array of booleans. It is a composite write: the number of bits
  goes out through \<open>writeVarint32\<close> and every byte of bits through an absolute \<open>writeInt8\<close>,
  each of which checks the offset and grows the store on its own. (The absolute
  \<open>writeVarint32\<close> returns the number of bytes it wrote, never \<open>This\<close>; that case is there to
  make the case distinction complete.)
\<close>

definition bitnum :: "bool list \<Rightarrow> nat \<Rightarrow> int" where
  \<comment> \<open>\<^verbatim>\<open>value[i]\<close> as a bitwise operand: \<^verbatim>\<open>true\<close> is 1, \<^verbatim>\<open>false\<close> and \<^verbatim>\<open>undefined\<close> are 0\<close>
  "bitnum val i = (if i < length val \<and> val ! i then 1 else 0)"

definition packed :: "bool list \<Rightarrow> nat \<Rightarrow> int" where
  \<comment> \<open>the byte of the eight bits from \<open>bit\<close> on, as the code writes it: the second operand
      is \<^verbatim>\<open>(value[bit++]) & 1 << 1\<close>, which masks with 2 and does not shift\<close>
  "packed val bit' =
     (bitnum val bit' AND 1) OR
     (bitnum val (bit' + 1) AND push_bit 1 1) OR
     push_bit 2 (bitnum val (bit' + 2) AND 1) OR
     push_bit 3 (bitnum val (bit' + 3) AND 1) OR
     push_bit 4 (bitnum val (bit' + 4) AND 1) OR
     push_bit 5 (bitnum val (bit' + 5) AND 1) OR
     push_bit 6 (bitnum val (bit' + 6) AND 1) OR
     push_bit 7 (bitnum val (bit' + 7) AND 1)"

definition packed_rest :: "bool list \<Rightarrow> nat \<Rightarrow> int" where
  \<comment> \<open>\<^verbatim>\<open>while (bit < bits) k = k | ((value[bit++] & 1) << (m++))\<close>, from \<open>k = 0\<close>, \<open>m = 0\<close>\<close>
  "packed_rest val bit' =
     fold (\<lambda>i k. k OR push_bit (i - bit') (bitnum val i AND 1)) [bit'..<length val] 0"

fun writeBitSet_loop ::
  "(nat \<Rightarrow> byte) \<Rightarrow> bool list \<Rightarrow> nat \<Rightarrow> nat \<Rightarrow> int \<Rightarrow> SmartBuffer
     \<Rightarrow> (error + nat \<times> int) \<times> SmartBuffer" where
  \<comment> \<open>\<^verbatim>\<open>while (bytes--) { k = ...; this.writeInt8(k, offset++) }\<close>, returning \<open>bit\<close> and
      \<open>offset\<close>\<close>
  "writeBitSet_loop mem val 0 bit' offset bb = (Inr (bit', offset), bb)"
| "writeBitSet_loop mem val (Suc bytes) bit' offset bb =
     (case writeInt8 mem (packed val bit') (Some offset) bb of
        (Inl e, bb1) \<Rightarrow> (Inl e, bb1)
      | (Inr _, bb1) \<Rightarrow> writeBitSet_loop mem val bytes (bit' + 8) (offset + 1) bb1)"

definition writeBitSet ::
  "(nat \<Rightarrow> byte) \<Rightarrow> bool list \<Rightarrow> int option \<Rightarrow> SmartBuffer \<Rightarrow> (error + written) \<times> SmartBuffer" where
  "writeBitSet mem val offset bb =
     (let relative = (offset = None);
          offset0 = (case offset of None \<Rightarrow> woffset bb | Some off \<Rightarrow> off);
          offset1 = (if noAssert bb then offset0 else toUint32 offset0)
      in if \<not> noAssert bb \<and> (offset1 < 0 \<or> offset1 + 0 > int (length (buffer bb)))
         then (Inl RangeError, bb)
         else
           let start = offset1;
               bits = length val;
               bytes = bits div 8
           in case writeVarint32 mem (int bits) (Some offset1) bb of
                (Inl e, bb1) \<Rightarrow> (Inl e, bb1)
              | (Inr This, bb1) \<Rightarrow> (Inl TypeError, bb1)
              | (Inr (Written n), bb1) \<Rightarrow>
                  (case writeBitSet_loop mem val bytes 0 (offset1 + n) bb1 of
                     (Inl e, bb2) \<Rightarrow> (Inl e, bb2)
                   | (Inr (bit', offset2), bb2) \<Rightarrow>
                       (case (if bit' < bits
                              then (case writeInt8 mem (packed_rest val bit') (Some offset2) bb2 of
                                      (Inl e, bb3) \<Rightarrow> (Inl e, bb3)
                                    | (Inr _, bb3) \<Rightarrow> (Inr (offset2 + 1), bb3))
                              else (Inr offset2, bb2)) of
                          (Inl e, bb3) \<Rightarrow> (Inl e, bb3)
                        | (Inr offset3, bb3) \<Rightarrow>
                            if relative then (Inr This, bb3\<lparr>woffset := offset3\<rparr>)
                            else (Inr (Written (offset3 - start)), bb3))))"

section \<open>Structural operations\<close>

text \<open>
  \<^verbatim>\<open>write\<close> (here \<open>write'\<close>), \<open>prepend\<close>, \<open>appendTo\<close> and \<open>prependTo\<close> take a second buffer
  object and assign to its read cursor, and nothing keeps a caller from passing the receiver
  itself. The buffer objects therefore live in a heap, a map from references to their
  states; the methods take the reference \<open>this\<close> of the receiver and the reference of the
  other buffer, read every field through the heap at the point where the code reads it, and
  return the heap as the call leaves it. The second buffer is a buffer object: a source of
  another kind (a string, an array), which the code first wraps into a fresh buffer, and
  with it the encoding argument of \<open>prepend\<close>, are left out. Each object has a byte store
  of its own: two objects sharing one store, as \<^verbatim>\<open>wrap\<close> of a host buffer can produce,
  are not modelled.
\<close>

type_synonym ref = nat

type_synonym heap = "ref \<Rightarrow> SmartBuffer"

definition objects :: "SmartBuffer list \<Rightarrow> heap" where
  \<comment> \<open>the heap holding the given buffers at the references 0, 1, ... (an empty buffer at
      every other reference), for the concrete examples\<close>
  "objects bs r =
     (if r < length bs then bs ! r
      else \<lparr>buffer = [], woffset = 0, roffset = 0, noAssert = False\<rparr>)"

definition write' ::
  "(nat \<Rightarrow> byte) \<Rightarrow> ref \<Rightarrow> ref \<Rightarrow> int option \<Rightarrow> heap \<Rightarrow> (error + unit) \<times> heap" where
  "write' mem this source offset h =
     (let relative = (offset = None);
          offset0 = (case offset of None \<Rightarrow> woffset (h this) | Some off \<Rightarrow> off);
          result = toUint32 offset0
      in if \<not> noAssert (h this) \<and> (result < 0 \<or> result + 0 > int (length (buffer (h this))))
         then (Inl RangeError, h)
         else
           let len = woffset (h source) - roffset (h source) in
           if len \<le> 0 then (Inr (), h)
           else case grow mem (result + len) (h this) of
             (Inl e, bb1) \<Rightarrow> (Inl e, h(this := bb1))
           | (Inr _, bb1) \<Rightarrow>
               let h1 = h(this := bb1) in
               (case Buffer_copy (buffer (h1 source)) (buffer (h1 this)) result
                       (roffset (h1 source)) (woffset (h1 source)) of
                  Inl e \<Rightarrow> (Inl e, h1)
                | Inr buf \<Rightarrow>
                    let h2 = h1(this := (h1 this)\<lparr>buffer := buf\<rparr>);
                        h3 = h2(source := (h2 source)\<lparr>roffset := roffset (h2 source) + len\<rparr>)
                    in (Inr (),
                        if relative
                        then h3(this := (h3 this)\<lparr>woffset := woffset (h3 this) + len\<rparr>)
                        else h3)))"


definition writeBuffer ::
  "(nat \<Rightarrow> byte) \<Rightarrow> byte list \<Rightarrow> int option \<Rightarrow> SmartBuffer \<Rightarrow> (error + unit) \<times> SmartBuffer" where
  "writeBuffer mem buf offset bb =
     (if length buf = 0 then (Inr (), bb)
      else
        let relative = (offset = None);
            offset0 = (case offset of None \<Rightarrow> woffset bb | Some off \<Rightarrow> off);
            targetEnd = offset0 + int (length buf)
        in case grow mem targetEnd bb of
             (Inl e, bb1) \<Rightarrow> (Inl e, bb1)
           | (Inr _, bb1) \<Rightarrow>
               (case Buffer_copy buf (buffer bb1) offset0 0 (int (length buf)) of
                  Inl e \<Rightarrow> (Inl e, bb1)
                | Inr buf1 \<Rightarrow>
                    (Inr (), if relative then bb1\<lparr>buffer := buf1, woffset := targetEnd\<rparr>
                             else bb1\<lparr>buffer := buf1\<rparr>)))"



definition compact ::
  "(nat \<Rightarrow> byte) \<Rightarrow> int option \<Rightarrow> int option \<Rightarrow> SmartBuffer \<Rightarrow> (error + unit) \<times> SmartBuffer" where
  "compact mem begin' end' bb =
     (let begin0 = (case begin' of None \<Rightarrow> roffset bb | Some b \<Rightarrow> b);
          end0 = (case end' of None \<Rightarrow> int (length (buffer bb)) | Some e \<Rightarrow> e);
          begin1 = (if noAssert bb then begin0 else toUint32 begin0);
          end1 = (if noAssert bb then end0 else toUint32 end0)
      in if \<not> noAssert bb \<and> (begin1 < 0 \<or> begin1 > end1 \<or> end1 > int (length (buffer bb)))
         then (Inl RangeError, bb)
         else if begin1 = 0 \<and> end1 = int (length (buffer bb)) then (Inr (), bb)
         else
           let len = end1 - begin1 in
           if len = 0 then (Inr (), bb\<lparr>buffer := [], roffset := 0, woffset := 0\<rparr>)
           else if len < 0 then (Inl RangeError, bb)
           else case Buffer_copy (buffer bb) (allocUnsafe mem (nat len)) 0 begin1 end1 of
                  Inl e \<Rightarrow> (Inl e, bb)
                | Inr buf \<Rightarrow>
                    (Inr (), bb\<lparr>buffer := buf, woffset := woffset bb - roffset bb,
                                roffset := 0\<rparr>))"

section \<open>Debug text codec\<close>

text \<open>
  Debug strings are modelled as \<open>string\<close>: everything \<^verbatim>\<open>toDebug\<close> emits is ASCII.
  \<open>toDebug\<close> is the method with \<^verbatim>\<open>columns\<close> omitted, the one-line form that
  \<^verbatim>\<open>fromDebug\<close> reads.
\<close>

definition constructor :: "(nat \<Rightarrow> byte) \<Rightarrow> int \<Rightarrow> bool \<Rightarrow> error + SmartBuffer" where
  \<comment> \<open>\<^verbatim>\<open>new SmartBuffer(capacity, noAssert)\<close>; the host refuses a negative size\<close>
  "constructor mem cap na =
     (let cap1 = (if na then cap else toInt32 cap) in
      if \<not> na \<and> cap1 < 0 then Inl TypeError
      else if cap1 < 0 then Inl RangeError
      else Inr \<lparr>buffer = (if cap1 = 0 then [] else allocUnsafe mem (nat cap1)),
                woffset = 0, roffset = 0, noAssert = na\<rparr>)"

definition hexdigit :: "nat \<Rightarrow> char" where
  "hexdigit d = ''0123456789ABCDEF'' ! d"

definition toString16 :: "byte \<Rightarrow> string" where
  \<comment> \<open>\<^verbatim>\<open>b.toString(16).toUpperCase()\<close> for a byte\<close>
  "toString16 b =
     (if unat b < 16 then [hexdigit (unat b)]
      else [hexdigit (unat b div 16), hexdigit (unat b mod 16)])"

definition marker :: "SmartBuffer \<Rightarrow> int \<Rightarrow> string" where
  "marker bb i =
     (let k = int (length (buffer bb)) in
      if i = roffset bb \<and> roffset bb = woffset bb \<and> woffset bb = k then ''|''
      else if i = roffset bb \<and> roffset bb = woffset bb then ''^''
      else if i = roffset bb \<and> roffset bb = k then ''[''
      else if i = woffset bb \<and> woffset bb = k then '']''
      else if i = roffset bb then ''<''
      else if i = woffset bb then ''>''
      else if i = k then ''*''
      else if i \<noteq> 0 \<and> i \<noteq> k then '' '' else [])"

function toDebug_loop :: "SmartBuffer \<Rightarrow> int \<Rightarrow> string \<Rightarrow> string" where
  "toDebug_loop bb i hex =
     (if i < int (length (buffer bb))
      then
        let hex1 = (if i \<noteq> - 1
                    then (let b = buffer bb ! nat i in
                          if b < 0x10 then hex @ ''0'' @ toString16 b else hex @ toString16 b)
                    else hex);
            i1 = i + 1
        in toDebug_loop bb i1 (hex1 @ marker bb i1)
      else hex)"
  by pat_completeness auto
termination
  by (relation "measure (\<lambda>(bb, i, hex). nat (int (length (buffer bb)) - i))") auto

definition toDebug :: "SmartBuffer \<Rightarrow> string" where
  "toDebug bb = toDebug_loop bb (- 1) []"

definition hexval :: "char \<Rightarrow> int option" where
  "hexval c =
     (let n = (of_char c :: nat) in
      if 48 \<le> n \<and> n \<le> 57 then Some (int n - 48)
      else if 65 \<le> n \<and> n \<le> 70 then Some (int n - 55)
      else if 97 \<le> n \<and> n \<le> 102 then Some (int n - 87)
      else None)"

definition whitespace :: "char \<Rightarrow> bool" where
  "whitespace c = ((of_char c :: nat) \<in> {9, 10, 11, 12, 13, 32, 160})"

definition parseInt16 :: "string \<Rightarrow> int option" where
  \<comment> \<open>\<^verbatim>\<open>parseInt(s, 16)\<close> of the language: leading white space, a sign and a
      \<^verbatim>\<open>0x\<close> prefix are skipped, then the longest run of hex digits is read;
      \<open>None\<close> is \<^verbatim>\<open>NaN\<close>\<close>
  "parseInt16 s =
     (let s1 = dropWhile whitespace s;
          sign = (case s1 of c # _ \<Rightarrow> if c = CHR ''-'' then - 1 else 1 | [] \<Rightarrow> (1 :: int));
          s2 = (case s1 of c # r \<Rightarrow> if c = CHR ''-'' \<or> c = CHR ''+'' then r else s1 | [] \<Rightarrow> s1);
          s3 = (case s2 of
                  c # d # r \<Rightarrow> if c = CHR ''0'' \<and> (d = CHR ''x'' \<or> d = CHR ''X'') then r else s2
                | _ \<Rightarrow> s2);
          ds = takeWhile (\<lambda>c. hexval c \<noteq> None) s3
      in if ds = [] then None
         else Some (sign * foldl (\<lambda>a c. 16 * a + the (hexval c)) 0 ds))"

definition tobyte :: "int option \<Rightarrow> byte" where
  \<comment> \<open>a number stored into the typed array; \<^verbatim>\<open>NaN\<close> is stored as 0\<close>
  "tobyte b = (case b of None \<Rightarrow> 0 | Some v \<Rightarrow> of_int v)"

fun fromDebug_loop ::
  "bool \<Rightarrow> string \<Rightarrow> int \<Rightarrow> bool \<Rightarrow> bool \<Rightarrow> bool \<Rightarrow> bool \<Rightarrow> SmartBuffer
     \<Rightarrow> error + (int \<times> bool \<times> bool \<times> bool \<times> SmartBuffer)" where
  "fromDebug_loop na [] j rs hw hr hl bb = Inr (j, hw, hr, hl, bb)"
| "fromDebug_loop na (ch # rest) j rs hw hr hl bb =
     (if ch = CHR ''|'' then
        (if \<not> na \<and> (hr \<or> hw \<or> hl) then Inl RangeError
         else fromDebug_loop na rest j False (if na then hw else True) (if na then hr else True) (if na then hl else True)
                (bb\<lparr>roffset := j, woffset := j\<rparr>))
      else if ch = CHR '']'' then
        (if \<not> na \<and> (hw \<or> hl) then Inl RangeError
         else fromDebug_loop na rest j False (if na then hw else True) hr (if na then hl else True) (bb\<lparr>woffset := j\<rparr>))
      else if ch = CHR ''^'' then
        (if \<not> na \<and> (hr \<or> hw) then Inl RangeError
         else fromDebug_loop na rest j False (if na then hw else True) (if na then hr else True) hl
                (bb\<lparr>roffset := j, woffset := j\<rparr>))
      else if ch = CHR ''<'' then
        (if \<not> na \<and> hr then Inl RangeError
         else fromDebug_loop na rest j False hw (if na then hr else True) hl (bb\<lparr>roffset := j\<rparr>))
      else if ch = CHR ''*'' then
        (if \<not> na \<and> hl then Inl RangeError
         else fromDebug_loop na rest j False hw hr (if na then hl else True) bb)
      else if ch = CHR ''>'' then
        (if \<not> na \<and> hw then Inl RangeError
         else fromDebug_loop na rest j False (if na then hw else True) hr hl (bb\<lparr>woffset := j\<rparr>))
      else if ch = CHR '' '' then fromDebug_loop na rest j False hw hr hl bb
      else if \<not> na \<and> rs then Inl RangeError
      else
        (case rest of
           [] \<Rightarrow>
             let b = parseInt16 [ch] in
             if \<not> na \<and> (b = None \<or> the b < 0 \<or> the b > 255) then Inl RangeError
             else Inr (j + 1, hw, hr, hl, bb\<lparr>buffer := put (buffer bb) j (tobyte b)\<rparr>)
         | c2 # rest' \<Rightarrow>
             let b = parseInt16 [ch, c2] in
             if \<not> na \<and> (b = None \<or> the b < 0 \<or> the b > 255) then Inl RangeError
             else fromDebug_loop na rest' (j + 1) True hw hr hl
                    (bb\<lparr>buffer := put (buffer bb) j (tobyte b)\<rparr>)))"

definition fromDebug :: "(nat \<Rightarrow> byte) \<Rightarrow> string \<Rightarrow> bool \<Rightarrow> error + SmartBuffer" where
  "fromDebug mem str na =
     (let k = int (length str) in
      case constructor mem ((k + 1) div 3) na of
        Inl e \<Rightarrow> Inl e
      | Inr bb \<Rightarrow>
          (case fromDebug_loop na str 0 False False False False bb of
             Inl e \<Rightarrow> Inl e
           | Inr (j, hw, hr, hl, bb1) \<Rightarrow>
               if \<not> na \<and> \<not> (hr \<and> hw \<and> hl) then Inl RangeError
               else if \<not> na \<and> j < int (length (buffer bb1)) then Inl RangeError
               else Inr bb1))"

section \<open>Properties stated of the operations\<close>

text \<open>
  \<open>write_grows res bb off s\<close>: the write with outcome \<open>res\<close> on the buffer \<open>bb\<close> succeeded,
  the capacity is now \<open>max (2 * old) s\<close>, and the bytes below the write offset are as
  they were.
\<close>

definition write_grows :: "(error + 'a) \<times> SmartBuffer \<Rightarrow> SmartBuffer \<Rightarrow> int \<Rightarrow> int \<Rightarrow> bool" where
  "write_grows res bb off s \<longleftrightarrow>
     \<not> isl (fst res) \<and> capacity (snd res) = max (2 * capacity bb) s
       \<and> take (nat off) (buffer (snd res)) = take (nat off) (buffer bb)"











subsection \<open>The debug text, byte by byte\<close>

text \<open>
  \<open>hex2\<close> is the two-digit text of a byte, \<open>debug_body\<close> the text \<open>toDebug\<close> emits from byte
  \<open>i\<close> on, and \<open>partial\<close> the state \<open>fromDebug\<close> has reached after the first \<open>k\<close> bytes of that text.
\<close>

definition hex2 :: "byte \<Rightarrow> string" where
  "hex2 b = [hexdigit (unat b div 16), hexdigit (unat b mod 16)]"


definition debug_body :: "SmartBuffer \<Rightarrow> nat \<Rightarrow> string" where
  \<comment> \<open>what \<open>toDebug\<close> appends from byte \<open>i\<close> on: each byte and the mark after it\<close>
  "debug_body bb i =
     concat (map (\<lambda>j. hex2 (buffer bb ! j) @ marker bb (int j + 1)) [i..<length (buffer bb)])"


definition partial :: "SmartBuffer \<Rightarrow> byte list \<Rightarrow> int \<Rightarrow> SmartBuffer" where
  \<comment> \<open>the buffer \<open>fromDebug\<close> has built when it reaches position \<open>i\<close> of the text of \<open>bb\<close>\<close>
  "partial bb B i =
     \<lparr>buffer = B, woffset = (if woffset bb < i then woffset bb else 0),
      roffset = (if roffset bb < i then roffset bb else 0), noAssert = False\<rparr>"

section \<open>Auxiliary facts\<close>

declare writeVarint32_loop.simps [simp del] readVarint32_loop.simps [simp del]

lemma sdb: fixes w :: "32 word" shows "signed_drop_bit 31 w = (if bit w 31 then - 1 else 0)"
  by (rule bit_word_eqI) (auto simp: bit_simps Suc_le_eq)

lemma bit_times2:
  fixes w :: "32 word"
  shows "bit (w * 2) n = (0 < n \<and> n < 32 \<and> bit w (n - 1))"
proof -
  have "w * 2 = push_bit (Suc 0) w" by simp
  then show ?thesis
    by (simp only: bit_push_bit_iff) (auto simp: possible_bit_word)
qed

lemma zigzag_word:
  fixes w :: "32 word"
  shows "drop_bit 1 (push_bit 1 w XOR signed_drop_bit 31 w)
           XOR - ((push_bit 1 w XOR signed_drop_bit 31 w) AND 1) = w"
proof (cases "bit w 31")
  case True
  then have s: "signed_drop_bit 31 w = - 1"
    by (simp add: sdb)
  have one: "(push_bit 1 w XOR - 1) AND 1 = 1"
    by (rule bit_word_eqI) (auto simp: bit_simps bit_0)
  have main: "drop_bit 1 (push_bit 1 w XOR - 1) XOR - 1 = w"
  proof (rule bit_word_eqI)
    fix n assume "n < LENGTH(32)"
    then show "bit (drop_bit 1 (push_bit 1 w XOR - 1) XOR - 1) n = bit w n"
      using True by (cases "n = 31") (auto simp: bit_simps bit_times2)
  qed
  show ?thesis
    unfolding s one by (rule main)
next
  case False
  then have s: "signed_drop_bit 31 w = 0"
    by (simp add: sdb)
  have one: "push_bit 1 w AND 1 = 0"
    by (rule bit_word_eqI) (auto simp: bit_simps bit_times2)
  have main: "drop_bit 1 (push_bit 1 w) = w"
  proof (rule bit_word_eqI)
    fix n assume "n < LENGTH(32)"
    then show "bit (drop_bit 1 (push_bit 1 w)) n = bit w n"
      using False by (cases "n = 31") (auto simp: bit_simps bit_times2)
  qed
  have "drop_bit 1 (push_bit 1 w XOR 0) XOR - ((push_bit 1 w XOR 0) AND 1) = w"
    by (simp only: xor.right_neutral one main minus_zero)
  then show ?thesis
    unfolding s .
qed

lemma calc_step:
  fixes v :: "32 word"
  assumes "0x80 \<le> v"
  shows "calculateVarint32 (uint v) = 1 + calculateVarint32 (uint (drop_bit 7 v))"
proof -
  have a: "128 \<le> uint v" using assms by (simp add: word_le_def)
  have b: "uint v < 2 ^ 32" using uint_bounded [of v] by simp
  have c: "uint (drop_bit 7 v) = uint v div 128"
    by (simp add: drop_bit_eq_div uint_div)
  have d: "0 \<le> uint v div 128" using a by simp
  show ?thesis
    using a b d unfolding c calculateVarint32_def toUint32_def Let_def
    by (simp add: take_bit_int_eq_self) arith
qed

lemma group_join:
  fixes v :: "32 word"
  shows "(v AND 0x7f) OR push_bit 7 (drop_bit 7 v) = v"
proof -
  have m: "(0x7f :: 32 word) = mask 7"
    by (simp add: mask_eq_exp_minus_1)
  show ?thesis
    unfolding m
  proof (rule bit_word_eqI)
    fix n assume "n < LENGTH(32)"
    then show "bit (v AND mask 7 OR push_bit 7 (drop_bit 7 v)) n = bit v n"
      by (cases "7 \<le> n") (auto simp: bit_simps)
  qed
qed

lemma length_put [simp]: "length (put buf i b) = length buf"
  by (simp add: put_def)

lemma writeVarint32_loop_length [simp]:
  "length (fst (writeVarint32_loop buf off v)) = length buf"
  by (induction buf off v rule: writeVarint32_loop.induct)
     (subst writeVarint32_loop.simps, simp)

lemma writeVarint32_loop_offset:
  "snd (writeVarint32_loop buf off v) = off + calculateVarint32 (uint v)"
proof (induction buf off v rule: writeVarint32_loop.induct)
  case (1 buf offset v)
  show ?case
  proof (cases "0x80 \<le> v")
    case True
    then show ?thesis
      using 1 by (subst writeVarint32_loop.simps) (simp add: calc_step)
  next
    case False
    then have "uint v < 128" by (simp add: word_le_def)
    then have "calculateVarint32 (uint v) = 1"
      by (simp add: calculateVarint32_def toUint32_def take_bit_int_eq_self)
    with False show ?thesis
      by (subst writeVarint32_loop.simps) simp
  qed
qed

lemma at_put_other: "i \<noteq> j \<Longrightarrow> at (put buf j b) i = at buf i"
  by (auto simp: at_def put_def)

lemma at_put_same: "0 \<le> i \<Longrightarrow> i < int (length buf) \<Longrightarrow> at (put buf i b) i = Some b"
  by (auto simp: at_def put_def)

lemma writeVarint32_loop_below:
  "i < off \<Longrightarrow> at (fst (writeVarint32_loop buf off v)) i = at buf i"
proof (induction buf off v rule: writeVarint32_loop.induct)
  case (1 buf offset v)
  then show ?case
    by (subst writeVarint32_loop.simps) (simp add: at_put_other)
qed

lemma m7: "(0x7f :: 'a :: len word) = mask 7"
  by (simp add: mask_eq_exp_minus_1)

lemma bit128: "bit (0x80 :: 'a :: len word) n = (n = 7 \<and> 7 < LENGTH('a))"
proof -
  have "(0x80 :: 'a word) = 2 ^ 7" by simp
  then show ?thesis
    by (simp only: bit_exp_iff possible_bit_word) auto
qed

lemma bit128_int: "bit (0x80 :: int) n = (n = 7)"
proof -
  have "(0x80 :: int) = 2 ^ 7" by simp
  then show ?thesis
    by (simp only: bit_exp_iff) simp
qed

lemma byte_cont_group:
  fixes v :: "32 word"
  shows "ucast ((ucast ((v AND 0x7f) OR 0x80) :: byte) AND 0x7f) = v AND 0x7f"
  unfolding m7
  by (rule bit_word_eqI) (auto simp: bit_simps bit128 bit128_int)

lemma byte_cont_flag:
  fixes v :: "32 word"
  shows "(ucast ((v AND 0x7f) OR 0x80) :: byte) AND 0x80 \<noteq> 0"
proof -
  have "bit ((ucast ((v AND 0x7f) OR 0x80) :: byte) AND 0x80) 7"
    unfolding m7 by (simp add: bit_simps bit128 bit128_int)
  then show ?thesis
    by auto
qed

lemma byte_last_group:
  fixes v :: "32 word"
  assumes "\<not> 0x80 \<le> v"
  shows "ucast ((ucast v :: byte) AND 0x7f) = v"
proof -
  from assms have "v < 2 ^ 7" by simp
  then have e: "v AND mask 7 = v" by (rule less_mask_eq)
  have "ucast ((ucast v :: byte) AND mask 7) = v AND mask 7"
    by (rule bit_word_eqI) (auto simp: bit_simps)
  then show ?thesis
    unfolding m7 e .
qed

lemma byte_last_flag:
  fixes v :: "32 word"
  assumes "\<not> 0x80 \<le> v"
  shows "(ucast v :: byte) AND 0x80 = 0"
proof -
  from assms have "v < 2 ^ 7" by simp
  then have e: "v AND mask 7 = v" by (rule less_mask_eq)
  have "(ucast (v AND mask 7) :: byte) AND 0x80 = 0"
    by (rule bit_word_eqI) (auto simp: bit_simps bit128 bit128_int)
  then show ?thesis
    unfolding e .
qed

lemma group_shift:
  fixes v acc :: "32 word"
  shows "(acc OR push_bit (7 * c) (v AND 0x7f)) OR push_bit (7 * (c + 1)) (drop_bit 7 v)
           = acc OR push_bit (7 * c) v"
proof -
  have "push_bit (7 * c) ((v AND 0x7f) OR push_bit 7 (drop_bit 7 v)) = push_bit (7 * c) v"
    by (simp only: group_join)
  then show ?thesis
    by (simp add: push_bit_or push_bit_push_bit or.assoc add.commute)
qed

lemma calc_pos: "1 \<le> calculateVarint32 x" and calc_le: "calculateVarint32 x \<le> 5"
  by (simp_all add: calculateVarint32_def Let_def)

lemma read_after_write:
  assumes "0 \<le> off" and "off + calculateVarint32 (uint v) \<le> int (length buf)"
    and "int c + calculateVarint32 (uint v) \<le> 5"
  shows "readVarint32_loop (fst (writeVarint32_loop buf off v)) na off c acc
           = Inr (acc OR push_bit (7 * c) v, off + calculateVarint32 (uint v),
                  c + nat (calculateVarint32 (uint v)))"
  using assms
proof (induction buf off v arbitrary: c acc rule: writeVarint32_loop.induct)
  case (1 buf offset v)
  show ?case
  proof (cases "0x80 \<le> v")
    case True
    let ?b = "ucast ((v AND 0x7f) OR 0x80) :: byte"
    let ?buf1 = "put buf offset ?b"
    have cs: "calculateVarint32 (uint v) = 1 + calculateVarint32 (uint (drop_bit 7 v))"
      using True by (rule calc_step)
    have pos: "1 \<le> calculateVarint32 (uint (drop_bit 7 v))"
      by (rule calc_pos)
    have w: "writeVarint32_loop buf offset v = writeVarint32_loop ?buf1 (offset + 1) (drop_bit 7 v)"
      using True by (subst writeVarint32_loop.simps) simp
    have inr: "offset < int (length buf)"
      using 1(3) cs pos by simp
    have here: "at (fst (writeVarint32_loop ?buf1 (offset + 1) (drop_bit 7 v))) offset = Some ?b"
      using inr 1(2) by (simp add: writeVarint32_loop_below at_put_same)
    have c5: "c < 5"
      using 1(4) cs pos by simp
    have ih: "readVarint32_loop (fst (writeVarint32_loop ?buf1 (offset + 1) (drop_bit 7 v))) na
                (offset + 1) (c + 1) (acc OR push_bit (7 * c) (v AND 0x7f))
              = Inr ((acc OR push_bit (7 * c) (v AND 0x7f)) OR push_bit (7 * (c + 1)) (drop_bit 7 v),
                     offset + 1 + calculateVarint32 (uint (drop_bit 7 v)),
                     c + 1 + nat (calculateVarint32 (uint (drop_bit 7 v))))"
      by (rule 1(1) [OF True]) (use 1(2,3,4) cs in simp_all)
    have n: "c + nat (calculateVarint32 (uint v)) = c + 1 + nat (calculateVarint32 (uint (drop_bit 7 v)))"
      using cs pos by simp
    have step: "readVarint32_loop (fst (writeVarint32_loop ?buf1 (offset + 1) (drop_bit 7 v))) na
                  offset c acc
                = readVarint32_loop (fst (writeVarint32_loop ?buf1 (offset + 1) (drop_bit 7 v))) na
                    (offset + 1) (c + 1) (acc OR push_bit (7 * c) (v AND 0x7f))"
      by (subst readVarint32_loop.simps)
         (use inr 1(2) c5 in \<open>simp add: here byte_cont_group byte_cont_flag\<close>)
    show ?thesis
      unfolding w step ih group_shift n cs using pos by (simp add: add.assoc)
  next
    case False
    have cs: "calculateVarint32 (uint v) = 1"
    proof -
      from False have "uint v < 128" by (simp add: word_le_def)
      then show ?thesis
        by (simp add: calculateVarint32_def toUint32_def take_bit_int_eq_self)
    qed
    have w: "writeVarint32_loop buf offset v = (put buf offset (ucast v), offset + 1)"
      using False by (subst writeVarint32_loop.simps) simp
    have inr: "offset < int (length buf)"
      using 1(3) cs by simp
    have c5: "c < 5"
      using 1(4) cs by simp
    show ?thesis
      unfolding w
      apply (subst readVarint32_loop.simps)
      using inr 1(2) c5
      apply (simp add: at_put_same byte_last_group [OF False] byte_last_flag [OF False] cs)
      done
  qed
qed

lemma toUint32_toInt32: "toUint32 (toInt32 x) = toUint32 x"
  by (simp add: toUint32_def toInt32_def take_bit_signed_take_bit)

lemma toUint32_id: "0 \<le> x \<Longrightarrow> x < 2 ^ 32 \<Longrightarrow> toUint32 x = x"
  by (simp add: toUint32_def take_bit_int_eq_self)

lemma toInt32_id: "- (2 ^ 31) \<le> x \<Longrightarrow> x < 2 ^ 31 \<Longrightarrow> toInt32 x = x"
  by (simp add: toInt32_def signed_take_bit_int_eq_self)

lemma word_toInt32: "(word_of_int (toInt32 x) :: 32 word) = word_of_int x"
  unfolding toInt32_def
  by (rule bit_word_eqI) (auto simp: bit_simps)

lemma calc_toInt32: "calculateVarint32 (toInt32 x) = calculateVarint32 x"
  by (simp add: calculateVarint32_def toUint32_toInt32)

lemma resize_grows:
  assumes "int (length (buffer bb)) < c" and "c < 2 ^ 31"
  shows "resize mem c bb
           = (Inr (), bb\<lparr>buffer := buffer bb @ drop (length (buffer bb)) (allocUnsafe mem (nat c))\<rparr>)"
proof -
  have "0 \<le> c" using assms(1) by (smt (verit) of_nat_0_le_iff)
  then have "toInt32 c = c" using assms(2) by (simp add: toInt32_id)
  then show ?thesis
    using assms \<open>0 \<le> c\<close> by (simp add: resize_def Let_def)
qed

lemma length_allocUnsafe [simp]: "length (allocUnsafe mem n) = n"
  by (simp add: allocUnsafe_def)

lemma grow_result:
  assumes "s < 2 ^ 31" and "int (length (buffer bb)) < 2 ^ 30"
  shows "\<exists>buf. grow mem s bb = (Inr (), bb\<lparr>buffer := buf\<rparr>)
           \<and> take (length (buffer bb)) buf = buffer bb
           \<and> int (length buf) = (if s > int (length (buffer bb))
                                  then max (2 * int (length (buffer bb))) s
                                  else int (length (buffer bb)))"
proof (cases "s > int (length (buffer bb))")
  case True
  let ?c = "if int (length (buffer bb)) * 2 > s then int (length (buffer bb)) * 2 else s"
  have c: "int (length (buffer bb)) < ?c" "?c < 2 ^ 31"
    using True assms by auto
  have "grow mem s bb = resize mem ?c bb"
    using True by (simp add: grow_def Let_def)
  also note resize_grows [OF c]
  finally show ?thesis
    using True by (auto simp: max_def)
next
  case False
  then show ?thesis
    by (intro exI [of _ "buffer bb"]) (simp add: grow_def Let_def)
qed

lemma sint_word_of_int_id:
  "- (2 ^ 31) \<le> n \<Longrightarrow> n < 2 ^ 31 \<Longrightarrow> sint (word_of_int n :: 32 word) = n"
  by (simp add: sint_sbintrunc' signed_take_bit_int_eq_self)

lemma resize_frame:
  "\<exists>buf. snd (resize mem c bb) = bb\<lparr>buffer := buf\<rparr>
         \<and> take (length (buffer bb)) buf = buffer bb \<and> length (buffer bb) \<le> length buf"
  by (cases "int (length (buffer bb)) < (if noAssert bb then c else toInt32 c)")
     (auto simp: resize_def Let_def intro: exI [of _ "buffer bb"])

lemma grow_frame:
  "\<exists>buf. snd (grow mem s bb) = bb\<lparr>buffer := buf\<rparr>
         \<and> take (length (buffer bb)) buf = buffer bb \<and> length (buffer bb) \<le> length buf"
proof (cases "s > int (length (buffer bb))")
  case True
  then show ?thesis
    using resize_frame [of mem "if int (length (buffer bb)) * 2 > s then int (length (buffer bb)) * 2 else s" bb]
    by (simp add: grow_def Let_def)
next
  case False
  then show ?thesis
    by (auto simp: grow_def Let_def intro: exI [of _ "buffer bb"])
qed

lemma ensureCapacity_grows:
  assumes "capacity bb < c" and "capacity bb < 2 ^ 30" and "c < 2 ^ 31"
  shows "\<exists>buf. ensureCapacity mem c bb = (Inr (), bb\<lparr>buffer := buf\<rparr>)
           \<and> int (length buf) = max (2 * capacity bb) c
           \<and> take (length (buffer bb)) buf = buffer bb"
proof -
  let ?c = "if capacity bb * 2 > c then capacity bb * 2 else c"
  have c: "int (length (buffer bb)) < ?c" "?c < 2 ^ 31"
    using assms by (auto simp: capacity_def)
  have "ensureCapacity mem c bb = resize mem ?c bb"
    using assms(1) by (simp add: ensureCapacity_def Let_def capacity_def)
  also note resize_grows [OF c]
  finally show ?thesis
    using assms(1) by (auto simp: max_def capacity_def)
qed

lemma length_blit [simp]: "length (blit t i c) = length t"
  by (auto simp: blit_def)

lemma take_blit: "j \<le> i \<Longrightarrow> take j (blit t i c) = take j t"
  by (simp add: blit_def min_def)

lemma take_put: "off \<le> i \<Longrightarrow> take (nat off) (put b i v) = take (nat off) b"
  by (simp add: put_def)

lemma take_writeVarint32_loop:
  "j \<le> off \<Longrightarrow> take (nat j) (fst (writeVarint32_loop buf off v)) = take (nat j) buf"
proof (induction buf off v rule: writeVarint32_loop.induct)
  case (1 buf offset v)
  then show ?case
    by (subst writeVarint32_loop.simps) (simp add: take_put)
qed

lemma checkWrite_grows:
  assumes "off = (case offset of None \<Rightarrow> woffset bb | Some x \<Rightarrow> x)"
    and "0 \<le> off" and "off \<le> capacity bb" and "capacity bb < 2 ^ 30"
    and "capacity bb < off + n" and "off + n < 2 ^ 31"
  shows "\<exists>buf. checkWrite mem offset n bb
                 = (Inr off, (case offset of None \<Rightarrow> bb\<lparr>woffset := woffset bb + n\<rparr> | Some _ \<Rightarrow> bb)
                               \<lparr>buffer := buf\<rparr>)
           \<and> int (length buf) = max (2 * capacity bb) (off + n)
           \<and> take (nat off) buf = take (nat off) (buffer bb)"
proof -
  let ?bb1 = "case offset of None \<Rightarrow> bb\<lparr>woffset := woffset bb + n\<rparr> | Some _ \<Rightarrow> bb"
  have b1: "buffer ?bb1 = buffer bb" "noAssert ?bb1 = noAssert bb"
    by (simp_all split: option.splits)
  have u: "toUint32 off = off"
    using assms(2,3,4) by (intro toUint32_id) (auto simp: capacity_def)
  have len: "int (length (buffer ?bb1)) < 2 ^ 30"
    using assms(4) by (simp add: b1 capacity_def)
  from grow_result [OF assms(6) len, of mem]
  obtain buf where g: "grow mem (off + n) ?bb1 = (Inr (), ?bb1\<lparr>buffer := buf\<rparr>)"
    and t: "take (length (buffer ?bb1)) buf = buffer ?bb1"
    and l: "int (length buf) = (if off + n > int (length (buffer ?bb1))
                                then max (2 * int (length (buffer ?bb1))) (off + n)
                                else int (length (buffer ?bb1)))"
    by blast
  have le: "nat off \<le> length (buffer bb)"
    using assms(2,3) by (simp add: capacity_def)
  have "take (nat off) (buffer bb) = take (nat off) (take (length (buffer bb)) buf)"
    using t by (simp add: b1)
  also have "\<dots> = take (nat off) buf"
    using le by (simp add: min_def)
  finally have t': "take (nat off) buf = take (nat off) (buffer bb)"
    by simp
  have l': "int (length buf) = max (2 * capacity bb) (off + n)"
    using l assms(5) by (simp add: b1 capacity_def)
  have "checkWrite mem offset n bb = (Inr off, ?bb1\<lparr>buffer := buf\<rparr>)"
    using assms(2,3) g
    by (simp add: checkWrite_def Let_def assms(1) [symmetric] u b1 capacity_def)
  with t' l' show ?thesis
    by blast
qed

lemma fixed_write_grows:
  assumes "off = (case offset of None \<Rightarrow> woffset bb | Some x \<Rightarrow> x)"
    and "0 \<le> off" and "off \<le> capacity bb" and "capacity bb < 2 ^ 30"
    and "capacity bb < off + n" and "off + n < 2 ^ 31"
    and "\<And>buf. length (store off buf) = length buf"
    and "\<And>buf. take (nat off) (store off buf) = take (nat off) buf"
    and "op bb = (case checkWrite mem offset n bb of
              (Inl e, bb1) \<Rightarrow> (Inl e, bb1)
            | (Inr x, bb1) \<Rightarrow> (Inr (), bb1\<lparr>buffer := store x (buffer bb1)\<rparr>))"
  shows "write_grows (op bb) bb off (off + n)"
proof -
  from checkWrite_grows [OF assms(1-6), of mem]
  obtain buf where c: "checkWrite mem offset n bb
                 = (Inr off, (case offset of None \<Rightarrow> bb\<lparr>woffset := woffset bb + n\<rparr> | Some _ \<Rightarrow> bb)
                               \<lparr>buffer := buf\<rparr>)"
    and l: "int (length buf) = max (2 * capacity bb) (off + n)"
    and t: "take (nat off) buf = take (nat off) (buffer bb)"
    by blast
  show ?thesis
    unfolding write_grows_def assms(9) c
    using l t by (simp add: capacity_def assms(7,8))
qed

lemma length_put32BE [simp]: "length (put32BE buf off v) = length buf"
  by (simp add: put32BE_def)

lemma take_put32BE: "take (nat off) (put32BE buf off v) = take (nat off) buf"
  by (simp add: put32BE_def take_put)

lemma fixed_writes_grow:
  assumes "off = (case offset of None \<Rightarrow> woffset bb | Some x \<Rightarrow> x)"
    and "0 \<le> off" and "off \<le> capacity bb" and "capacity bb < 2 ^ 30"
  shows "capacity bb < off + 1 \<Longrightarrow> write_grows (writeInt8 mem v offset bb) bb off (off + 1)"
    and "capacity bb < off + 1 \<Longrightarrow> write_grows (writeUInt8 mem v offset bb) bb off (off + 1)"
    and "capacity bb < off + 2 \<Longrightarrow> write_grows (writeUInt16LE mem v offset bb) bb off (off + 2)"
    and "capacity bb < off + 2 \<Longrightarrow> write_grows (writeUInt16BE mem v offset bb) bb off (off + 2)"
    and "capacity bb < off + 4 \<Longrightarrow> write_grows (writeInt32BE mem v offset bb) bb off (off + 4)"
    and "capacity bb < off + 4 \<Longrightarrow> write_grows (writeUInt32BE mem v offset bb) bb off (off + 4)"
proof -
  have lt: "off + 1 < 2 ^ 31" "off + 2 < 2 ^ 31" "off + 4 < 2 ^ 31"
    using assms(3,4) by simp_all
  show "capacity bb < off + 1 \<Longrightarrow> write_grows (writeInt8 mem v offset bb) bb off (off + 1)"
    by (rule fixed_write_grows [OF assms _ lt(1),
          where store = "\<lambda>x buf. put buf x (of_int (toInt32 v))"])
       (simp_all add: writeInt8_def Let_def take_put)
  show "capacity bb < off + 1 \<Longrightarrow> write_grows (writeUInt8 mem v offset bb) bb off (off + 1)"
    by (rule fixed_write_grows [OF assms _ lt(1),
          where store = "\<lambda>x buf. put buf x (of_int (toUint32 v))"])
       (simp_all add: writeUInt8_def Let_def take_put)
  show "capacity bb < off + 2 \<Longrightarrow> write_grows (writeUInt16LE mem v offset bb) bb off (off + 2)"
    by (rule fixed_write_grows [OF assms _ lt(2),
          where store = "\<lambda>x buf. put (put buf (x + 1) (of_int (drop_bit 8 (toUint32 v)))) x
                                   (of_int (toUint32 v))"])
       (simp_all add: writeUInt16LE_def Let_def take_put)
  show "capacity bb < off + 2 \<Longrightarrow> write_grows (writeUInt16BE mem v offset bb) bb off (off + 2)"
    by (rule fixed_write_grows [OF assms _ lt(2),
          where store = "\<lambda>x buf. put (put buf x (of_int (drop_bit 8 (toUint32 v)))) (x + 1)
                                   (of_int (toUint32 v))"])
       (simp_all add: writeUInt16BE_def Let_def take_put)
  show "capacity bb < off + 4 \<Longrightarrow> write_grows (writeInt32BE mem v offset bb) bb off (off + 4)"
    by (rule fixed_write_grows [OF assms _ lt(3),
          where store = "\<lambda>x buf. put32BE buf x (toInt32 v)"])
       (simp_all add: writeInt32BE_def Let_def take_put32BE)
  show "capacity bb < off + 4 \<Longrightarrow> write_grows (writeUInt32BE mem v offset bb) bb off (off + 4)"
    by (rule fixed_write_grows [OF assms _ lt(3),
          where store = "\<lambda>x buf. put32BE buf x (toUint32 v)"])
       (simp_all add: writeUInt32BE_def Let_def take_put32BE)
qed

lemma grow_grows:
  assumes "0 \<le> off" and "off \<le> capacity bb" and "capacity bb < 2 ^ 30"
    and "capacity bb < s" and "s < 2 ^ 31"
  shows "\<exists>buf. grow mem s bb = (Inr (), bb\<lparr>buffer := buf\<rparr>)
           \<and> int (length buf) = max (2 * capacity bb) s
           \<and> take (nat off) buf = take (nat off) (buffer bb)"
proof -
  have len: "int (length (buffer bb)) < 2 ^ 30"
    using assms(3) by (simp add: capacity_def)
  from grow_result [OF assms(5) len, of mem]
  obtain buf where g: "grow mem s bb = (Inr (), bb\<lparr>buffer := buf\<rparr>)"
    and t: "take (length (buffer bb)) buf = buffer bb"
    and l: "int (length buf) = (if s > int (length (buffer bb))
                                then max (2 * int (length (buffer bb))) s
                                else int (length (buffer bb)))"
    by blast
  have le: "nat off \<le> length (buffer bb)"
    using assms(1,2) by (simp add: capacity_def)
  have "take (nat off) (buffer bb) = take (nat off) (take (length (buffer bb)) buf)"
    using t by simp
  also have "\<dots> = take (nat off) buf"
    using le by (simp add: min_def)
  finally have "take (nat off) buf = take (nat off) (buffer bb)"
    by simp
  moreover have "int (length buf) = max (2 * capacity bb) s"
    using l assms(4) by (simp add: capacity_def)
  ultimately show ?thesis
    using g by blast
qed

lemma writeVarint32_grows:
  assumes "off = (case offset of None \<Rightarrow> woffset bb | Some x \<Rightarrow> x)"
    and "0 \<le> off" and "off \<le> capacity bb" and "capacity bb < 2 ^ 30"
    and "capacity bb < off + calculateVarint32 v"
  shows "write_grows (writeVarint32 mem v offset bb) bb off (off + calculateVarint32 v)"
proof -
  define val1 where "val1 = (if noAssert bb then v else toInt32 v)"
  have sz: "calculateVarint32 val1 = calculateVarint32 v"
    by (simp add: val1_def calc_toInt32)
  have u: "toUint32 off = off"
    using assms(2,3,4) by (intro toUint32_id) (auto simp: capacity_def)
  have "off + calculateVarint32 v < 2 ^ 31"
    using assms(3,4) calc_le [of v] by simp
  from grow_grows [OF assms(2,3,4,5) this, of mem]
  obtain buf where g: "grow mem (off + calculateVarint32 v) bb = (Inr (), bb\<lparr>buffer := buf\<rparr>)"
    and l: "int (length buf) = max (2 * capacity bb) (off + calculateVarint32 v)"
    and t: "take (nat off) buf = take (nat off) (buffer bb)"
    by blast
  obtain buf2 o2 where lp: "writeVarint32_loop buf off (word_of_int val1) = (buf2, o2)"
    by (cases "writeVarint32_loop buf off (word_of_int val1)")
  have l2: "length buf2 = length buf"
    using writeVarint32_loop_length [of buf off "word_of_int val1"] by (simp add: lp)
  have t2: "take (nat off) buf2 = take (nat off) buf"
    using take_writeVarint32_loop [of off off buf "word_of_int val1"] by (simp add: lp)
  show ?thesis
    using assms(1,2,3) l t u g lp l2 t2
    by (cases offset)
       (simp_all add: write_grows_def writeVarint32_def Let_def val1_def [symmetric] sz
          capacity_def)
qed

lemma writeCString_grows:
  assumes "off = (case offset of None \<Rightarrow> woffset bb | Some x \<Rightarrow> x)"
    and "0 \<le> off" and "off \<le> capacity bb" and "capacity bb < 2 ^ 30"
    and "0 \<notin> set str"
    and "capacity bb < off + (int (length (enc str)) + 1)"
    and "off + (int (length (enc str)) + 1) < 2 ^ 31"
  shows "write_grows (writeCString mem enc str offset bb) bb off
           (off + (int (length (enc str)) + 1))"
proof -
  let ?k = "int (length (enc str))"
  have u: "toUint32 off = off"
    using assms(2,3,4) by (intro toUint32_id) (auto simp: capacity_def)
  from grow_grows [OF assms(2,3,4,6,7), of mem]
  obtain buf where g: "grow mem (off + (?k + 1)) bb = (Inr (), bb\<lparr>buffer := buf\<rparr>)"
    and l: "int (length buf) = max (2 * capacity bb) (off + (?k + 1))"
    and t: "take (nat off) buf = take (nat off) (buffer bb)"
    by blast
  have fits: "off + ?k + 1 \<le> int (length buf)"
    using l by simp
  then have m: "min (length (enc str)) (length buf - nat off) = length (enc str)"
    using assms(2) by simp
  have bw: "Buffer_write buf (enc str) off ?k = Inr (blit buf (nat off) (enc str), ?k)"
    using assms(2) fits by (simp add: Buffer_write_def Let_def m)
  show ?thesis
    using assms(1,2,3,5) l t u g bw
    by (cases offset)
       (simp_all add: write_grows_def writeCString_def Let_def capacity_def take_put take_blit)
qed

lemma writeBuffer_grows:
  assumes "off = (case offset of None \<Rightarrow> woffset bb | Some x \<Rightarrow> x)"
    and "0 \<le> off" and "off \<le> capacity bb" and "capacity bb < 2 ^ 30"
    and "capacity bb < off + int (length buf)"
    and "off + int (length buf) < 2 ^ 31"
  shows "write_grows (writeBuffer mem buf offset bb) bb off (off + int (length buf))"
proof -
  have ne: "length buf \<noteq> 0"
    using assms(3,5) by auto
  from grow_grows [OF assms(2,3,4,5,6), of mem]
  obtain buf1 where g: "grow mem (off + int (length buf)) bb = (Inr (), bb\<lparr>buffer := buf1\<rparr>)"
    and l: "int (length buf1) = max (2 * capacity bb) (off + int (length buf))"
    and t: "take (nat off) buf1 = take (nat off) (buffer bb)"
    by blast
  have bc: "Buffer_copy buf buf1 off 0 (int (length buf)) = Inr (blit buf1 (nat off) buf)"
    using assms(2) by (simp add: Buffer_copy_def)
  show ?thesis
    using assms(1,2,3) ne l t g bc
    by (cases offset)
       (simp_all add: write_grows_def writeBuffer_def Let_def capacity_def take_blit)
qed

declare readCString_loop.simps [simp del]

lemma readCString_loop_none:
  "0 \<le> start \<Longrightarrow> 0 \<notin> set (drop (nat start) buf) \<Longrightarrow> readCString_loop buf start = Inl RangeError"
proof (induction buf start rule: readCString_loop.induct)
  case (1 buf offset)
  show ?case
  proof (cases "offset \<ge> int (length buf)")
    case True
    then show ?thesis
      by (subst readCString_loop.simps) simp
  next
    case False
    with 1(2) have lt: "nat offset < length buf"
      by simp
    then have "buf ! nat offset \<in> set (drop (nat offset) buf)"
      by (metis Cons_nth_drop_Suc list.set_intros(1))
    with 1(3) have nz: "buf ! nat offset \<noteq> 0"
      by metis
    have "set (drop (nat (offset + 1)) buf) \<subseteq> set (drop (nat offset) buf)"
      using 1(2) by (simp add: nat_add_distrib set_drop_subset_set_drop)
    with 1(3) have "0 \<notin> set (drop (nat (offset + 1)) buf)"
      by blast
    then have "readCString_loop buf (offset + 1) = Inl RangeError"
      using 1(1) [OF False] nz lt 1(2) by (simp add: at_def)
    then show ?thesis
      using False nz 1(2) by (subst readCString_loop.simps) (simp add: at_def)
  qed
qed

lemma readCString_loop_found:
  "0 \<le> start \<Longrightarrow> drop (nat start) buf = pre @ 0 # rest \<Longrightarrow> 0 \<notin> set pre
     \<Longrightarrow> readCString_loop buf start = Inr (start + int (length pre) + 1)"
proof (induction pre arbitrary: start)
  case Nil
  then have "nat start < length buf" "buf ! nat start = 0"
    by (auto simp: nth_via_drop intro: ccontr)
  then show ?case
    using Nil(1) by (subst readCString_loop.simps) (simp add: at_def)
next
  case (Cons p ps)
  from Cons(3) have lt: "nat start < length buf" and h: "buf ! nat start = p"
    by (auto simp: nth_via_drop intro: ccontr)
  have "drop (Suc (nat start)) buf = ps @ 0 # rest"
    using Cons(3) by (metis drop_Suc tl_drop list.sel(3) append_Cons)
  then have d: "drop (nat (start + 1)) buf = ps @ 0 # rest"
    using Cons(2) by (simp add: nat_add_distrib)
  have "readCString_loop buf (start + 1) = Inr (start + 1 + int (length ps) + 1)"
    using Cons(1) [OF _ d] Cons(2,4) by simp
  then show ?case
    using lt h Cons(2,4) by (subst readCString_loop.simps) (simp add: at_def)
qed

lemma blit_whole: "length c = length t \<Longrightarrow> blit t 0 c = c"
  by (simp add: blit_def)





















subsection \<open>Decoding the debug text\<close>

declare toDebug_loop.simps [simp del]

lemma digit_cases:
  assumes "d < 16"
  shows "d \<in> {0, 1, 2, 3, 4, 5, 6, 7, 8, 9, 10, 11, 12, 13, 14, 15 :: nat}"
  using assms by simp arith

lemma hexval_hexdigit: "d < 16 \<Longrightarrow> hexval (hexdigit d) = Some (int d)"
  using digit_cases [of d] by (auto simp: hexval_def hexdigit_def)

lemma hexdigit_plain:
  "d < 16 \<Longrightarrow> \<not> whitespace (hexdigit d) \<and> hexdigit d \<notin> set ''|]^<*> -+xX''"
  using digit_cases [of d] by (auto simp: whitespace_def hexdigit_def)

lemma toString16_hex2:
  "b < 0x10 \<Longrightarrow> CHR ''0'' # toString16 b = hex2 b"
  "\<not> b < 0x10 \<Longrightarrow> toString16 b = hex2 b"
proof -
  show "CHR ''0'' # toString16 b = hex2 b" if "b < 0x10"
  proof -
    from that have "unat b < 16"
      by (simp add: word_less_nat_alt)
    then show ?thesis
      by (simp add: toString16_def hex2_def hexdigit_def)
  qed
  show "toString16 b = hex2 b" if "\<not> b < 0x10"
  proof -
    from that have "\<not> unat b < 16"
      by (simp add: word_less_nat_alt)
    then show ?thesis
      by (simp add: toString16_def hex2_def)
  qed
qed

lemma parseInt16_hex2: "parseInt16 (hex2 b) = Some (uint b)"
proof -
  have "unat b < 2 ^ LENGTH(8)"
    by (rule unsigned_less)
  then have hi: "unat b div 16 < 16"
    by simp
  have lo: "unat b mod 16 < 16"
    by simp
  note p1 = hexdigit_plain [OF hi] and p2 = hexdigit_plain [OF lo]
  have "int (unat b div 16) * 16 + int (unat b mod 16) = int (unat b)"
    by (metis div_mult_mod_eq of_nat_add of_nat_mult of_nat_numeral)
  then show ?thesis
    using p1 p2
    by (simp add: parseInt16_def hex2_def Let_def hexval_hexdigit [OF hi] hexval_hexdigit [OF lo]
        mult.commute)
qed

lemma debug_body_step:
  "i < length (buffer bb) \<Longrightarrow>
     debug_body bb i = hex2 (buffer bb ! i) @ marker bb (int i + 1) @ debug_body bb (Suc i)"
  by (simp add: debug_body_def upt_conv_Cons)

lemma debug_body_end: "debug_body bb (length (buffer bb)) = []"
  by (simp add: debug_body_def)

lemma toDebug_loop_eq:
  "i \<le> length (buffer bb) \<Longrightarrow> toDebug_loop bb (int i) acc = acc @ debug_body bb i"
proof (induction "length (buffer bb) - i" arbitrary: i acc)
  case 0
  then have "i = length (buffer bb)"
    by simp
  then show ?case
    by (subst toDebug_loop.simps) (simp add: debug_body_end)
next
  case (Suc n)
  then have lt: "i < length (buffer bb)"
    by simp
  have ih: "toDebug_loop bb (int (Suc i)) acc' = acc' @ debug_body bb (Suc i)" for acc'
    using Suc(2) lt by (intro Suc(1)) simp_all
  have "toDebug_loop bb (int i) acc
          = toDebug_loop bb (int i + 1) ((acc @ hex2 (buffer bb ! i)) @ marker bb (int i + 1))"
    using lt by (subst toDebug_loop.simps) (simp add: Let_def toString16_hex2 del: append_assoc)
  also have "\<dots> = ((acc @ hex2 (buffer bb ! i)) @ marker bb (int i + 1)) @ debug_body bb (Suc i)"
    using ih by (simp add: add.commute)
  finally show ?case
    by (simp add: debug_body_step [OF lt])
qed

lemma toDebug_eq: "toDebug bb = marker bb 0 @ debug_body bb 0"
proof -
  have "toDebug bb = toDebug_loop bb 0 (marker bb 0)"
    unfolding toDebug_def by (subst toDebug_loop.simps) (simp add: Let_def)
  then show ?thesis
    using toDebug_loop_eq [of 0 bb "marker bb 0"] by simp
qed

lemma byte_step:
  "fromDebug_loop False (hex2 b @ rest) j False hw hr hl cur
     = fromDebug_loop False rest (j + 1) True hw hr hl (cur\<lparr>buffer := put (buffer cur) j b\<rparr>)"
proof -
  have "unat b < 2 ^ LENGTH(8)"
    by (rule unsigned_less)
  then have hi: "unat b div 16 < 16"
    by simp
  have lo: "unat b mod 16 < 16"
    by simp
  note p1 = hexdigit_plain [OF hi]
  have pi: "parseInt16 [hexdigit (unat b div 16), hexdigit (unat b mod 16)] = Some (uint b)"
    using parseInt16_hex2 [of b] by (simp add: hex2_def)
  have rng: "0 \<le> uint b" "uint b \<le> 255"
    using uint_bounded [of b] by simp_all
  have tb: "tobyte (Some (uint b)) = b"
    by (simp add: tobyte_def)
  show ?thesis
    using p1 rng
    by (cases rest) (simp_all add: hex2_def pi tb Let_def)
qed

lemma marker_step:
  assumes "0 \<le> roffset bb" and "roffset bb \<le> capacity bb"
    and "0 \<le> woffset bb" and "woffset bb \<le> capacity bb"
    and "\<not> (roffset bb = capacity bb \<and> woffset bb \<noteq> capacity bb)"
    and "0 \<le> i" and "i \<le> capacity bb" and "i = 0 \<longrightarrow> \<not> rs"
  shows "fromDebug_loop False (marker bb i @ rest) i rs
           (woffset bb < i) (roffset bb < i) (capacity bb < i) (partial bb B i)
         = fromDebug_loop False rest i False
             (woffset bb < i + 1) (roffset bb < i + 1) (capacity bb < i + 1) (partial bb B (i + 1))"
  using assms unfolding marker_def Let_def capacity_def partial_def
  by auto

lemma put_next:
  assumes "i < length buf" and "length B = length buf"
  shows "put (take i buf @ drop i B) (int i) (buf ! i) = take (Suc i) buf @ drop (Suc i) B"
proof -
  have "(take i buf @ drop i B)[i := buf ! i] = take i buf @ (drop i B)[0 := buf ! i]"
    using assms by (simp add: list_update_append)
  also have "(drop i B)[0 := buf ! i] = buf ! i # drop (Suc i) B"
    using assms by (cases "drop i B") (auto simp: drop_Suc drop_tl)
  finally show ?thesis
    using assms by (simp add: put_def take_Suc_conv_app_nth)
qed

lemma fromDebug_loop_toDebug:
  assumes "0 \<le> roffset bb" and "roffset bb \<le> capacity bb"
    and "0 \<le> woffset bb" and "woffset bb \<le> capacity bb"
    and "\<not> (roffset bb = capacity bb \<and> woffset bb \<noteq> capacity bb)"
    and "i \<le> length (buffer bb)" and "length B = length (buffer bb)" and "i = 0 \<longrightarrow> \<not> rs"
  shows "fromDebug_loop False (marker bb (int i) @ debug_body bb i) (int i) rs
           (woffset bb < int i) (roffset bb < int i) (capacity bb < int i)
           (partial bb (take i (buffer bb) @ drop i B) (int i))
         = Inr (capacity bb, True, True, True, bb\<lparr>noAssert := False\<rparr>)"
  using assms(6,8)
proof (induction "length (buffer bb) - i" arbitrary: i rs)
  case 0
  then have i: "i = length (buffer bb)"
    by simp
  have ik: "int i = capacity bb"
    by (simp add: i capacity_def)
  have "fromDebug_loop False (marker bb (int i) @ []) (int i) rs
           (woffset bb < int i) (roffset bb < int i) (capacity bb < int i)
           (partial bb (take i (buffer bb) @ drop i B) (int i))
         = fromDebug_loop False [] (int i) False
             (woffset bb < int i + 1) (roffset bb < int i + 1) (capacity bb < int i + 1)
             (partial bb (take i (buffer bb) @ drop i B) (int i + 1))"
  proof (rule marker_step [OF assms(1-5)])
    show "0 \<le> int i" "int i \<le> capacity bb"
      by (simp_all add: i capacity_def)
    show "int i = 0 \<longrightarrow> \<not> rs"
      using 0(3) by simp
  qed
  also have "\<dots> = Inr (capacity bb, True, True, True, bb\<lparr>noAssert := False\<rparr>)"
    using assms(2,4,7) by (simp add: capacity_def partial_def i)
  finally show ?case
    by (simp add: i debug_body_end)
next
  case (Suc n)
  then have lt: "i < length (buffer bb)"
    by simp
  let ?B = "take i (buffer bb) @ drop i B"
  let ?rest = "marker bb (int i + 1) @ debug_body bb (Suc i)"
  have ic: "0 \<le> int i" "int i \<le> capacity bb"
    using lt by (simp_all add: capacity_def)
  have "fromDebug_loop False (marker bb (int i) @ hex2 (buffer bb ! i) @ ?rest) (int i) rs
           (woffset bb < int i) (roffset bb < int i) (capacity bb < int i) (partial bb ?B (int i))
         = fromDebug_loop False (hex2 (buffer bb ! i) @ ?rest) (int i) False
             (woffset bb < int i + 1) (roffset bb < int i + 1) (capacity bb < int i + 1)
             (partial bb ?B (int i + 1))"
  proof (rule marker_step [OF assms(1-5) ic])
    show "int i = 0 \<longrightarrow> \<not> rs"
      using Suc(4) by simp
  qed
  also have "\<dots> = fromDebug_loop False ?rest (int i + 1) True
             (woffset bb < int i + 1) (roffset bb < int i + 1) (capacity bb < int i + 1)
             ((partial bb ?B (int i + 1))\<lparr>buffer := put ?B (int i) (buffer bb ! i)\<rparr>)"
    by (simp add: byte_step partial_def)
  also have "(partial bb ?B (int i + 1))\<lparr>buffer := put ?B (int i) (buffer bb ! i)\<rparr>
               = partial bb (take (Suc i) (buffer bb) @ drop (Suc i) B) (int (Suc i))"
    using put_next [OF lt assms(7)] by (simp add: partial_def add.commute)
  also have "fromDebug_loop False ?rest (int i + 1) True
             (woffset bb < int i + 1) (roffset bb < int i + 1) (capacity bb < int i + 1)
             (partial bb (take (Suc i) (buffer bb) @ drop (Suc i) B) (int (Suc i)))
           = Inr (capacity bb, True, True, True, bb\<lparr>noAssert := False\<rparr>)"
    using Suc(1) [of "Suc i" True] Suc(2) lt by (simp add: add.commute)
  finally show ?case
    by (simp add: debug_body_step [OF lt])
qed

lemma marker_length:
  assumes "0 \<le> roffset bb" and "roffset bb \<le> capacity bb"
    and "0 \<le> woffset bb" and "woffset bb \<le> capacity bb"
  shows "1 \<le> i \<Longrightarrow> i \<le> capacity bb \<Longrightarrow> length (marker bb i) = 1"
    and "length (marker bb 0) \<le> 1"
    and "capacity bb = 0 \<Longrightarrow> length (marker bb 0) = 1"
  using assms by (auto simp: marker_def Let_def capacity_def)

lemma debug_body_length:
  assumes "0 \<le> roffset bb" and "roffset bb \<le> capacity bb"
    and "0 \<le> woffset bb" and "woffset bb \<le> capacity bb"
  shows "i \<le> length (buffer bb) \<Longrightarrow> length (debug_body bb i) = 3 * (length (buffer bb) - i)"
proof (induction "length (buffer bb) - i" arbitrary: i)
  case 0
  then show ?case
    by (simp add: debug_body_def)
next
  case (Suc n)
  then have lt: "i < length (buffer bb)"
    by simp
  have "length (marker bb (int i + 1)) = 1"
    using lt by (intro marker_length(1) [OF assms]) (simp_all add: capacity_def)
  moreover have "length (debug_body bb (Suc i)) = 3 * (length (buffer bb) - Suc i)"
    using Suc(2) lt by (intro Suc(1)) simp_all
  ultimately show ?case
    using lt by (simp add: debug_body_step [OF lt] hex2_def)
qed

subsection \<open>The varint scan and the end of the store\<close>

lemma readVarint32_loop_never_truncated:
  "offset \<le> int (length buf) \<Longrightarrow> readVarint32_loop buf na offset c v \<noteq> Inl TruncatedError"
proof (induction buf na offset c v rule: readVarint32_loop.induct)
  case (1 buf na offset c v)
  show ?case
  proof (cases "at buf offset")
    case None
    with 1(2) show ?thesis
      by (subst readVarint32_loop.simps) simp
  next
    case (Some b)
    then have lt: "offset < int (length buf)"
      by (simp add: at_def split: if_splits)
    define v1 where "v1 = (if c < 5 then v OR push_bit (7 * c) (ucast (b AND 0x7f)) else v)"
    show ?thesis
    proof (cases "b AND 0x80 \<noteq> 0")
      case True
      have nt: "\<not> (\<not> na \<and> int (length buf) < offset)"
        using lt by simp
      have "readVarint32_loop buf na (offset + 1) (c + 1) v1 \<noteq> Inl TruncatedError"
        using 1(1) [OF nt Some v1_def True] lt by simp
      then show ?thesis
        using Some True lt by (subst readVarint32_loop.simps) (simp add: v1_def Let_def)
    next
      case False
      with Some lt show ?thesis
        by (subst readVarint32_loop.simps) (simp add: Let_def)
    qed
  qed
qed

lemma readVarint32_never_truncated:
  "\<not> noAssert bb \<Longrightarrow> fst (readVarint32 offset bb) \<noteq> Inl TruncatedError"
proof -
  assume na: "\<not> noAssert bb"
  let ?o = "toUint32 (case offset of None \<Rightarrow> roffset bb | Some off \<Rightarrow> off)"
  show ?thesis
  proof (cases "?o < 0 \<or> ?o + 1 > int (length (buffer bb))")
    case True
    then show ?thesis
      using na by (simp add: readVarint32_def Let_def)
  next
    case False
    then have "?o \<le> int (length (buffer bb))"
      by simp
    then have "readVarint32_loop (buffer bb) False ?o 0 0 \<noteq> Inl TruncatedError"
      by (rule readVarint32_loop_never_truncated)
    then show ?thesis
      using na False
      by (cases "readVarint32_loop (buffer bb) False ?o 0 0")
         (auto simp: readVarint32_def Let_def split: prod.splits)
  qed
qed

subsection \<open>Operations on two buffers\<close>

lemma grow_cases:
  obtains r b where "grow mem s bb = (r, bb\<lparr>buffer := b\<rparr>)"
    and "take (length (buffer bb)) b = buffer bb" and "length (buffer bb) \<le> length b"
proof -
  obtain b where "snd (grow mem s bb) = bb\<lparr>buffer := b\<rparr>"
    and "take (length (buffer bb)) b = buffer bb" and "length (buffer bb) \<le> length b"
    using grow_frame [of mem s bb] by blast
  then show thesis
    using that [of "fst (grow mem s bb)" b] by (simp add: prod_eq_iff)
qed

lemma write_cursors:
  assumes "\<not> isl (fst (write' mem this source offset h))"
  shows "roffset (snd (write' mem this source offset h) source)
           = roffset (h source) + max 0 (woffset (h source) - roffset (h source))"
    and "woffset (snd (write' mem this source offset h) this)
           = woffset (h this)
               + (case offset of None \<Rightarrow> max 0 (woffset (h source) - roffset (h source))
                  | Some _ \<Rightarrow> 0)"
    and "this \<noteq> source \<Longrightarrow> roffset (snd (write' mem this source offset h) this) = roffset (h this)"
    and "this \<noteq> source \<Longrightarrow> woffset (snd (write' mem this source offset h) source) = woffset (h source)"
proof -
  let ?L = "woffset (h source) - roffset (h source)"
  let ?r = "toUint32 (case offset of None \<Rightarrow> woffset (h this) | Some off \<Rightarrow> off)"
  obtain r b where g: "grow mem (?r + ?L) (h this) = (r, (h this)\<lparr>buffer := b\<rparr>)"
    by (rule grow_cases)
  note defs = write'_def Let_def g max_def
  show "roffset (snd (write' mem this source offset h) source)
           = roffset (h source) + max 0 ?L"
    using assms by (auto simp: defs split: sum.splits if_splits option.splits)
  show "woffset (snd (write' mem this source offset h) this)
           = woffset (h this) + (case offset of None \<Rightarrow> max 0 ?L | Some _ \<Rightarrow> 0)"
    using assms by (auto simp: defs split: sum.splits if_splits option.splits)
  show "this \<noteq> source \<Longrightarrow> roffset (snd (write' mem this source offset h) this) = roffset (h this)"
    using assms by (auto simp: defs split: sum.splits if_splits option.splits)
  show "this \<noteq> source \<Longrightarrow> woffset (snd (write' mem this source offset h) source) = woffset (h source)"
    using assms by (auto simp: defs split: sum.splits if_splits option.splits)
qed




lemma write_from_buffer_grows:
  assumes "off = (case offset of None \<Rightarrow> woffset (h this) | Some x \<Rightarrow> x)"
    and "0 \<le> off" and "off \<le> capacity (h this)" and "capacity (h this) < 2 ^ 30"
    and "0 < woffset (h source) - roffset (h source)"
    and "0 \<le> roffset (h source)" and "roffset (h source) \<le> capacity (h source)"
    and "capacity (h this) < off + (woffset (h source) - roffset (h source))"
    and "off + (woffset (h source) - roffset (h source)) < 2 ^ 31"
  shows "write_grows (fst (write' mem this source offset h),
                      snd (write' mem this source offset h) this)
           (h this) off (off + (woffset (h source) - roffset (h source)))"
proof -
  let ?L = "woffset (h source) - roffset (h source)"
  have u: "toUint32 off = off"
    using assms(2,3,4) by (intro toUint32_id) (auto simp: capacity_def)
  from grow_grows [OF assms(2,3,4,8,9), of mem]
  obtain buf where g: "grow mem (off + ?L) (h this) = (Inr (), (h this)\<lparr>buffer := buf\<rparr>)"
    and l: "int (length buf) = max (2 * capacity (h this)) (off + ?L)"
    and t: "take (nat off) buf = take (nat off) (buffer (h this))"
    by blast
  have le: "roffset (h this) \<le> capacity (h this) \<Longrightarrow> roffset (h this) \<le> int (length buf)"
    using l by simp
  show ?thesis
  proof (cases "source = this")
    case True
    have bc: "Buffer_copy buf buf off (roffset (h this)) (woffset (h this))
                = Inr (blit buf (nat off) (drop (nat (roffset (h this))) (take (nat (woffset (h this))) buf)))"
      using assms(2,5,6,7) le True by (simp add: Buffer_copy_def)
    show ?thesis
      using assms(1,2,3,5) l t u g bc True
      by (cases offset)
         (simp_all add: write_grows_def write'_def Let_def capacity_def take_blit)
  next
    case False
    have bc: "Buffer_copy (buffer (h source)) buf off (roffset (h source)) (woffset (h source))
                = Inr (blit buf (nat off)
                         (drop (nat (roffset (h source))) (take (nat (woffset (h source))) (buffer (h source)))))"
      using assms(2,5,6,7) by (simp add: Buffer_copy_def capacity_def)
    show ?thesis
      using assms(1,2,3,5) l t u g bc False
      by (cases offset)
         (simp_all add: write_grows_def write'_def Let_def capacity_def take_blit)
  qed
qed



subsection \<open>Cursors of \<open>writeBitSet\<close>\<close>







subsection \<open>The shared checks and the end of the growth policy\<close>

lemma toInt32_high:
  assumes "2 ^ 31 \<le> x" and "x < 2 ^ 32"
  shows "toInt32 x = x - 2 ^ 32"
proof -
  have "x + 2147483648 = x - 2147483648 + 1 * 4294967296"
    by simp
  then have "(x + 2147483648) mod 4294967296 = (x - 2147483648 + 1 * 4294967296) mod 4294967296"
    by (rule arg_cong)
  also have "\<dots> = (x - 2147483648) mod 4294967296"
    by (rule mod_mult_self1)
  finally have "signed_take_bit 31 x = signed_take_bit 31 (x - 2 ^ 32)"
    by (simp add: signed_take_bit_eq_take_bit_shift take_bit_eq_mod)
  also have "\<dots> = x - 2 ^ 32"
    using assms by (intro signed_take_bit_int_eq_self) simp_all
  finally show ?thesis
    by (simp add: toInt32_def)
qed

lemma ensureCapacity_overflow:
  assumes "\<not> noAssert bb" and "2 ^ 30 \<le> capacity bb" and "capacity bb < c" and "c < 2 ^ 31"
  shows "ensureCapacity mem c bb = (Inl TypeError, bb)"
proof -
  have "toInt32 (capacity bb * 2) = capacity bb * 2 - 2 ^ 32"
    using assms(2,3,4) by (intro toInt32_high) simp_all
  then have "toInt32 (capacity bb * 2) < 0"
    using assms(3,4) by simp
  then show ?thesis
    using assms by (simp add: ensureCapacity_def resize_def Let_def capacity_def)
qed

lemma checkWrite_write_grows:
  assumes "off = (case offset of None \<Rightarrow> woffset bb | Some x \<Rightarrow> x)"
    and "0 \<le> off" and "off \<le> capacity bb" and "capacity bb < 2 ^ 30"
    and "capacity bb < off + n" and "off + n < 2 ^ 31"
  shows "write_grows (checkWrite mem offset n bb) bb off (off + n)"
  using checkWrite_grows [OF assms, of mem]
  by (auto simp: write_grows_def capacity_def)


section \<open>Claims\<close>

text \<open>
  Claim C1. For every 32-bit signed integer \<open>n\<close>, writing \<open>n\<close> with \<open>writeVarint32ZigZag\<close>
  at a valid offset and reading it back with \<open>readVarint32ZigZag\<close> at the same offset gives
  \<open>n\<close> again; the write reports \<open>calculateVarint32 (zigZagEncode32 n)\<close> bytes and the
  absolute read reports the same length. In relative mode, with both cursors at the offset,
  the write cursor and then the read cursor advance by that number of bytes. The store is
  below \<open>2 ^ 30\<close> bytes, so that doubling it stays a valid capacity.
\<close>

theorem varint32_zigzag_roundtrip:
  assumes n: "- (2 ^ 31) \<le> n" "n < 2 ^ 31"
    and off: "0 \<le> off" "off \<le> capacity bb"
    and cap: "capacity bb < 2 ^ 30"
  shows "(\<exists>bb'. writeVarint32ZigZag mem n (Some off) bb
                  = (Inr (Written (calculateVarint32 (zigZagEncode32 n))), bb')
             \<and> readVarint32ZigZag (Some off) bb'
                  = (Inr (SNumber n (calculateVarint32 (zigZagEncode32 n))), bb'))
       \<and> (woffset bb = off \<and> roffset bb = off \<longrightarrow>
            (\<exists>bb'. writeVarint32ZigZag mem n None bb = (Inr This, bb')
               \<and> woffset bb' = off + calculateVarint32 (zigZagEncode32 n)
               \<and> readVarint32ZigZag None bb'
                    = (Inr (Number n),
                       bb'\<lparr>roffset := off + calculateVarint32 (zigZagEncode32 n)\<rparr>)))"
proof -
  define w0 :: "32 word" where "w0 = word_of_int n"
  define W :: "32 word" where "W = push_bit 1 w0 XOR signed_drop_bit 31 w0"
  define e where "e = zigZagEncode32 n"
  define val1 where "val1 = (if noAssert bb then e else toInt32 e)"
  define size where "size = calculateVarint32 e"
  have e: "e = uint W"
    by (simp add: e_def zigZagEncode32_def W_def w0_def Let_def)
  have wv: "(word_of_int val1 :: 32 word) = W"
    by (simp add: val1_def word_toInt32 e)
  have sz: "calculateVarint32 val1 = size"
    by (simp add: val1_def calc_toInt32 size_def)
  have szW: "calculateVarint32 (uint W) = size"
    by (simp add: size_def e)
  have sz_bounds: "1 \<le> size" "size \<le> 5"
    by (simp_all add: size_def calc_pos calc_le)
  have len: "int (length (buffer bb)) < 2 ^ 30" and off_le: "off \<le> int (length (buffer bb))"
    using cap off by (simp_all add: capacity_def)
  have off1: "toUint32 off = off"
    using off len off_le by (intro toUint32_id) auto
  have "off + size < 2 ^ 31"
    using off_le len sz_bounds by simp
  from grow_result [OF this len, of mem]
  obtain buf where g: "grow mem (off + size) bb = (Inr (), bb\<lparr>buffer := buf\<rparr>)"
    and blen: "int (length buf) = (if off + size > int (length (buffer bb))
                                  then max (2 * int (length (buffer bb))) (off + size)
                                  else int (length (buffer bb)))"
    by blast
  have fits: "off + size \<le> int (length buf)"
    using blen by (auto split: if_splits)
  define buf2 where "buf2 = fst (writeVarint32_loop buf off W)"
  define bb' where "bb' = bb\<lparr>buffer := buf2\<rparr>"
  have lp: "writeVarint32_loop buf off W = (buf2, off + size)"
    by (simp add: buf2_def prod_eq_iff writeVarint32_loop_offset szW)
  have wr: "writeVarint32ZigZag mem n (Some off) bb = (Inr (Written size), bb')"
    using off off_le
    by (simp add: writeVarint32ZigZag_def writeVarint32_def Let_def e_def [symmetric]
        val1_def [symmetric] sz wv off1 g lp bb'_def)
  have rl: "readVarint32_loop buf2 na off 0 0 = Inr (W, off + size, nat size)" for na
    unfolding buf2_def
    using read_after_write [of off W buf 0 na 0] off fits sz_bounds
    by (simp add: szW)
  have len2: "length buf2 = length buf"
    by (simp add: buf2_def)
  have rd: "readVarint32 (Some off) bb' = (Inr (SNumber (sint W) size), bb')"
    using off fits sz_bounds
    by (simp add: readVarint32_def Let_def bb'_def off1 rl len2)
  have dec: "zigZagDecode32 (sint W) = n"
  proof -
    have ww: "(word_of_int (sint W) :: 32 word) = W"
      by simp
    have "zigZagDecode32 (sint W) = sint (drop_bit 1 W XOR - (W AND 1))"
      by (simp only: zigZagDecode32_def Let_def ww)
    also have "drop_bit 1 W XOR - (W AND 1) = w0"
      unfolding W_def by (rule zigzag_word)
    finally show ?thesis
      using n by (simp add: w0_def sint_word_of_int_id)
  qed
  have rdz: "readVarint32ZigZag (Some off) bb' = (Inr (SNumber n size), bb')"
    by (simp add: readVarint32ZigZag_def rd dec)
  have rel: "\<exists>bb'. writeVarint32ZigZag mem n None bb = (Inr This, bb')
               \<and> woffset bb' = off + size
               \<and> readVarint32ZigZag None bb'
                    = (Inr (Number n), bb'\<lparr>roffset := off + size\<rparr>)"
    if wo: "woffset bb = off" and ro: "roffset bb = off"
  proof -
    define bbr where "bbr = bb\<lparr>buffer := buf2, woffset := off + size\<rparr>"
    have wr': "writeVarint32ZigZag mem n None bb = (Inr This, bbr)"
      using off off_le
      by (simp add: writeVarint32ZigZag_def writeVarint32_def Let_def e_def [symmetric]
          val1_def [symmetric] sz wv wo off1 g lp bbr_def)
    have rd': "readVarint32 None bbr = (Inr (Number (sint W)), bbr\<lparr>roffset := off + size\<rparr>)"
      using off fits sz_bounds
      by (simp add: readVarint32_def Let_def bbr_def ro off1 rl len2)
    have "readVarint32ZigZag None bbr = (Inr (Number n), bbr\<lparr>roffset := off + size\<rparr>)"
      by (simp add: readVarint32ZigZag_def rd' dec)
    moreover have "woffset bbr = off + size"
      by (simp add: bbr_def)
    ultimately show ?thesis
      using wr' by blast
  qed
  from wr rdz rel show ?thesis
    unfolding size_def e_def by blast
qed

theorem varint32_zigzag_roundtrip_witness:
  "(- (2 ^ 31) \<le> (- 3 :: int) \<and> (- 3 :: int) < 2 ^ 31 \<and> (0 :: int) \<le> 0
      \<and> 0 \<le> capacity \<lparr>buffer = [], woffset = 0, roffset = 0, noAssert = False\<rparr>
      \<and> capacity \<lparr>buffer = [], woffset = 0, roffset = 0, noAssert = False\<rparr> < 2 ^ 30)
   \<and> (\<exists>bb'. writeVarint32ZigZag zeroed (- 3) (Some 0)
                  \<lparr>buffer = [], woffset = 0, roffset = 0, noAssert = False\<rparr>
                = (Inr (Written (calculateVarint32 (zigZagEncode32 (- 3)))), bb')
           \<and> readVarint32ZigZag (Some 0) bb'
                = (Inr (SNumber (- 3) (calculateVarint32 (zigZagEncode32 (- 3)))), bb'))
   \<and> (\<exists>bb'. writeVarint32ZigZag zeroed (- 3) None
                  \<lparr>buffer = [], woffset = 0, roffset = 0, noAssert = False\<rparr>
                = (Inr This, bb')
           \<and> woffset bb' = 0 + calculateVarint32 (zigZagEncode32 (- 3))
           \<and> readVarint32ZigZag None bb'
                = (Inr (Number (- 3)),
                   bb'\<lparr>roffset := 0 + calculateVarint32 (zigZagEncode32 (- 3))\<rparr>))"
  using varint32_zigzag_roundtrip [of "- 3" 0
      "\<lparr>buffer = [], woffset = 0, roffset = 0, noAssert = False\<rparr>" zeroed]
  by (simp add: capacity_def)

text \<open>
  Claim C2. Decoding the text of \<open>toDebug\<close> with \<open>fromDebug\<close> should give back the bytes and
  both cursors for every buffer with cursors inside the store. It does not when the read
  cursor stands at the end of the store and the write cursor before it: \<open>toDebug\<close> then
  emits the marker \<open>[\<close>, which \<open>fromDebug\<close> has no case for. The one-byte buffer that has
  been read once shows it: its text is \<open>>61[\<close>, and decoding that text is a range error.
\<close>

theorem toDebug_fromDebug_open_bracket:
  "toDebug \<lparr>buffer = [0x61], woffset = 0, roffset = 1, noAssert = False\<rparr> = ''>61[''
   \<and> fromDebug zeroed
         (toDebug \<lparr>buffer = [0x61], woffset = 0, roffset = 1, noAssert = False\<rparr>) False
       = Inl RangeError"
  by code_simp

text \<open>
  Every other buffer survives the round trip: when the cursors are inside the store and the
  read cursor is not at the end with the write cursor before it, decoding the text of
  \<open>toDebug\<close> gives back the bytes and both cursors.
\<close>

theorem debug_roundtrip_without_open_bracket:
  assumes "0 \<le> roffset bb" and "roffset bb \<le> capacity bb"
    and "0 \<le> woffset bb" and "woffset bb \<le> capacity bb"
    and "\<not> (roffset bb = capacity bb \<and> woffset bb \<noteq> capacity bb)"
    and "capacity bb < 2 ^ 31"
  shows "fromDebug mem (toDebug bb) False = Inr (bb\<lparr>noAssert := False\<rparr>)"
proof -
  let ?k = "length (buffer bb)"
  define B where "B = (if int ?k = 0 then [] else allocUnsafe mem (nat (int ?k)))"
  have lB: "length B = ?k"
    by (simp add: B_def)
  have m0: "length (marker bb 0) \<le> 1" "?k = 0 \<Longrightarrow> length (marker bb 0) = 1"
    using marker_length(2,3) [OF assms(1-4)] by (simp_all add: capacity_def)
  have "length (toDebug bb) = length (marker bb 0) + 3 * ?k"
    using debug_body_length [OF assms(1-4), of 0] by (simp add: toDebug_eq)
  then have "(int (length (toDebug bb)) + 1) div 3 = int ?k"
    using m0 by (cases "length (marker bb 0) = 0") auto
  moreover have "toInt32 (int ?k) = int ?k"
    using assms(6) by (intro toInt32_id) (simp_all add: capacity_def)
  ultimately have c: "constructor mem ((int (length (toDebug bb)) + 1) div 3) False = Inr (partial bb B 0)"
    using assms(1,3) by (simp add: constructor_def Let_def partial_def B_def)
  have "fromDebug_loop False (marker bb (int 0) @ debug_body bb 0) (int 0) False
           (woffset bb < int 0) (roffset bb < int 0) (capacity bb < int 0)
           (partial bb (take 0 (buffer bb) @ drop 0 B) (int 0))
         = Inr (capacity bb, True, True, True, bb\<lparr>noAssert := False\<rparr>)"
    by (rule fromDebug_loop_toDebug [OF assms(1-5) _ lB]) simp_all
  then have l: "fromDebug_loop False (toDebug bb) 0 False False False False (partial bb B 0)
         = Inr (capacity bb, True, True, True, bb\<lparr>noAssert := False\<rparr>)"
    using assms(1,3) by (simp add: toDebug_eq capacity_def)
  show ?thesis
    by (simp add: fromDebug_def Let_def c l capacity_def)
qed

text \<open>
  Claim C4. A failed check should leave the buffer as it was. The relative fixed-width
  reads and writes move their cursor before the check runs: reading a byte from a one-byte
  buffer whose read cursor is at the end raises the range error and leaves the cursor one
  further, and a relative byte write with the write cursor beyond the store does the same
  to the write cursor.
\<close>

theorem relative_fixed_width_error_moves_cursor:
  "readUInt8 None \<lparr>buffer = [0x01], woffset = 1, roffset = 1, noAssert = False\<rparr>
     = (Inl RangeError, \<lparr>buffer = [0x01], woffset = 1, roffset = 2, noAssert = False\<rparr>)
   \<and> writeUInt8 zeroed 7 None \<lparr>buffer = [0x01], woffset = 2, roffset = 0, noAssert = False\<rparr>
     = (Inl RangeError, \<lparr>buffer = [0x01], woffset = 3, roffset = 0, noAssert = False\<rparr>)"
  by code_simp

text \<open>
  Claim C6. With assertions enabled, a \<open>readVarint32\<close> whose bytes all carry the continuation
  bit up to the end of the store should raise the error "Truncated". The scan tests
  \<open>offset > length\<close>, so it reads one position past the store, finds no byte there, takes
  that as the end of the varint and returns: on the store \<open>80\<close> the read at offset 0 returns
  the value 0 with length 2, and the relative read leaves the read cursor at 2.
\<close>

theorem readVarint32_truncated_returns:
  "readVarint32 (Some 0) \<lparr>buffer = [0x80], woffset = 1, roffset = 0, noAssert = False\<rparr>
     = (Inr (SNumber 0 2), \<lparr>buffer = [0x80], woffset = 1, roffset = 0, noAssert = False\<rparr>)
   \<and> readVarint32 None \<lparr>buffer = [0x80], woffset = 1, roffset = 0, noAssert = False\<rparr>
     = (Inr (Number 0), \<lparr>buffer = [0x80], woffset = 1, roffset = 2, noAssert = False\<rparr>)"
  by code_simp

text \<open>
  Claim C7, as the specification states it: \<open>fromDebug\<close> of \<open><61 62 00>\<close> succeeds with a
  4-byte store. With assertions enabled the call raises a range error, and without them the
  store has 3 bytes.
\<close>

theorem fromDebug_example_counterexample:
  "fromDebug zeroed ''<61 62 00>'' False = Inl RangeError
   \<and> fromDebug zeroed ''<61 62 00>'' True
       = Inr \<lparr>buffer = [0x61, 0x62, 0x00], woffset = 3, roffset = 0, noAssert = True\<rparr>"
  by code_simp

text \<open>
  Claim C7, amended. \<open>fromDebug\<close> of \<open><61 62 00>\<close> raises a range error when assertions are
  enabled, since the text marks no end of store; with \<open>noAssert\<close> it yields the 3-byte store
  \<open>61 62 00\<close> with \<open>roffset = 0\<close> and \<open>woffset = 3\<close>. The text \<open><61 62 00]\<close>, which marks the
  end of the store, yields that 3-byte buffer with assertions enabled, whatever the fresh
  memory held.
\<close>

theorem fromDebug_example:
  "fromDebug mem ''<61 62 00>'' False = Inl RangeError
   \<and> fromDebug mem ''<61 62 00>'' True
       = Inr \<lparr>buffer = [0x61, 0x62, 0x00], woffset = 3, roffset = 0, noAssert = True\<rparr>
   \<and> fromDebug mem ''<61 62 00]'' False
       = Inr \<lparr>buffer = [0x61, 0x62, 0x00], woffset = 3, roffset = 0, noAssert = False\<rparr>"
  by code_simp

text \<open>
  Claim C3, as the specification states it: after any write that requires a size \<open>s\<close> above
  the capacity, the new capacity is \<open>max (2 * old) s\<close>. \<open>writeBitSet\<close> is a write that grows
  the store at each of the writes it is made of. Nine bits written at offset 0 of a one-byte
  store need three bytes: the varint of the count fits, the first byte of bits doubles the
  store to 2 and the second doubles it to 4, so the capacity ends at 4 and not at
  \<open>max 2 3 = 3\<close>.
\<close>

theorem writeBitSet_growth_counterexample:
  "writeBitSet zeroed [True, True, True, True, True, True, True, True, True] (Some 0)
       \<lparr>buffer = [0x00], woffset = 0, roffset = 0, noAssert = False\<rparr>
     = (Inr (Written 3),
        \<lparr>buffer = [0x09, 0xFD, 0x01, 0x00], woffset = 0, roffset = 0, noAssert = False\<rparr>)
   \<and> capacity (snd (writeBitSet zeroed [True, True, True, True, True, True, True, True, True]
                       (Some 0) \<lparr>buffer = [0x00], woffset = 0, roffset = 0, noAssert = False\<rparr>))
     = 4"
  by code_simp

text \<open>
  Claim C3, amended. \<open>resize\<close> changes nothing but the store, never shrinks it and keeps the
  existing bytes at their offsets, whatever its outcome. On a store below \<open>2 ^ 30\<close> bytes,
  \<open>ensureCapacity c\<close> with the capacity below \<open>c < 2 ^ 31\<close> grows the store to exactly
  \<open>max (2 * current) c\<close> and keeps the existing bytes; on a store of \<open>2 ^ 30\<close> bytes or more,
  with assertions enabled, the doubled capacity is no 32-bit integer and the call raises a
  type error and leaves the buffer as it was. A single write at a valid offset \<open>off\<close> (the
  write cursor when the offset is omitted) of a store below \<open>2 ^ 30\<close> bytes that needs
  \<open>s < 2 ^ 31\<close> bytes, \<open>s\<close> above the capacity, succeeds and leaves the capacity at
  \<open>max (2 * old) s\<close> with the bytes below \<open>off\<close> intact: the check \<^verbatim>\<open>_checkWrite\<close> at every
  width, the fixed-width writes \<open>writeInt8\<close>, \<open>writeUInt8\<close>, \<open>writeUInt16LE\<close>,
  \<open>writeUInt16BE\<close>, \<open>writeInt32BE\<close> and \<open>writeUInt32BE\<close>, \<open>writeVarint32\<close> and
  \<open>writeVarint32ZigZag\<close>, \<open>writeCString\<close> of a string without NUL, \<open>write\<close> from a buffer
  (another one or the receiver itself) and \<open>writeBuffer\<close>. A composite write such as
  \<open>writeBitSet\<close> is not among them.
\<close>

theorem capacity_growth_policy:
  "(\<exists>buf. snd (resize mem c bb) = bb\<lparr>buffer := buf\<rparr> \<and> length (buffer bb) \<le> length buf
           \<and> take (length (buffer bb)) buf = buffer bb)
   \<and> (capacity bb < c \<and> capacity bb < 2 ^ 30 \<and> c < 2 ^ 31 \<longrightarrow>
        (\<exists>buf. ensureCapacity mem c bb = (Inr (), bb\<lparr>buffer := buf\<rparr>)
           \<and> int (length buf) = max (2 * capacity bb) c
           \<and> take (length (buffer bb)) buf = buffer bb))
   \<and> (\<not> noAssert bb \<and> 2 ^ 30 \<le> capacity bb \<and> capacity bb < c \<and> c < 2 ^ 31 \<longrightarrow>
        ensureCapacity mem c bb = (Inl TypeError, bb))
   \<and> (off = (case offset of None \<Rightarrow> woffset bb | Some x \<Rightarrow> x) \<and> 0 \<le> off \<and> off \<le> capacity bb
        \<and> capacity bb < 2 ^ 30 \<longrightarrow>
        (capacity bb < off + n \<and> off + n < 2 ^ 31 \<longrightarrow>
           write_grows (checkWrite mem offset n bb) bb off (off + n))
        \<and> (capacity bb < off + 1 \<longrightarrow>
           write_grows (writeInt8 mem v offset bb) bb off (off + 1)
           \<and> write_grows (writeUInt8 mem v offset bb) bb off (off + 1))
        \<and> (capacity bb < off + 2 \<longrightarrow>
           write_grows (writeUInt16LE mem v offset bb) bb off (off + 2)
           \<and> write_grows (writeUInt16BE mem v offset bb) bb off (off + 2))
        \<and> (capacity bb < off + 4 \<longrightarrow>
           write_grows (writeInt32BE mem v offset bb) bb off (off + 4)
           \<and> write_grows (writeUInt32BE mem v offset bb) bb off (off + 4))
        \<and> (capacity bb < off + calculateVarint32 v \<longrightarrow>
           write_grows (writeVarint32 mem v offset bb) bb off (off + calculateVarint32 v))
        \<and> (capacity bb < off + calculateVarint32 (zigZagEncode32 v) \<longrightarrow>
           write_grows (writeVarint32ZigZag mem v offset bb) bb off
             (off + calculateVarint32 (zigZagEncode32 v)))
        \<and> (0 \<notin> set str \<and> capacity bb < off + (int (length (enc str)) + 1)
             \<and> off + (int (length (enc str)) + 1) < 2 ^ 31 \<longrightarrow>
           write_grows (writeCString mem enc str offset bb) bb off
             (off + (int (length (enc str)) + 1)))
        \<and> (h this = bb \<and> 0 < woffset (h source) - roffset (h source) \<and> 0 \<le> roffset (h source)
             \<and> roffset (h source) \<le> capacity (h source)
             \<and> capacity bb < off + (woffset (h source) - roffset (h source))
             \<and> off + (woffset (h source) - roffset (h source)) < 2 ^ 31 \<longrightarrow>
           write_grows (fst (write' mem this source offset h),
                        snd (write' mem this source offset h) this)
             bb off (off + (woffset (h source) - roffset (h source))))
        \<and> (capacity bb < off + int (length buf) \<and> off + int (length buf) < 2 ^ 31 \<longrightarrow>
           write_grows (writeBuffer mem buf offset bb) bb off (off + int (length buf))))"
proof (intro conjI impI)
  show "\<exists>buf. snd (resize mem c bb) = bb\<lparr>buffer := buf\<rparr> \<and> length (buffer bb) \<le> length buf
           \<and> take (length (buffer bb)) buf = buffer bb"
    using resize_frame [of mem c bb] by blast
next
  assume "capacity bb < c \<and> capacity bb < 2 ^ 30 \<and> c < 2 ^ 31"
  then show "\<exists>buf. ensureCapacity mem c bb = (Inr (), bb\<lparr>buffer := buf\<rparr>)
           \<and> int (length buf) = max (2 * capacity bb) c
           \<and> take (length (buffer bb)) buf = buffer bb"
    using ensureCapacity_grows [of bb c mem] by blast
next
  assume "\<not> noAssert bb \<and> 2 ^ 30 \<le> capacity bb \<and> capacity bb < c \<and> c < 2 ^ 31"
  then show "ensureCapacity mem c bb = (Inl TypeError, bb)"
    using ensureCapacity_overflow [of bb c mem] by blast
next
  assume a: "off = (case offset of None \<Rightarrow> woffset bb | Some x \<Rightarrow> x) \<and> 0 \<le> off \<and> off \<le> capacity bb
        \<and> capacity bb < 2 ^ 30"
  then have b: "off = (case offset of None \<Rightarrow> woffset bb | Some x \<Rightarrow> x)" "0 \<le> off"
    "off \<le> capacity bb" "capacity bb < 2 ^ 30"
    by simp_all
  note fx = fixed_writes_grow [OF b]
  {
    assume "capacity bb < off + n \<and> off + n < 2 ^ 31"
    then show "write_grows (checkWrite mem offset n bb) bb off (off + n)"
      using checkWrite_write_grows [OF b, of n mem] by blast
  }
  {
    assume c: "capacity bb < off + 1"
    show "write_grows (writeInt8 mem v offset bb) bb off (off + 1)"
      using c by (rule fx(1))
    show "write_grows (writeUInt8 mem v offset bb) bb off (off + 1)"
      using c by (rule fx(2))
  }
  {
    assume c: "capacity bb < off + 2"
    show "write_grows (writeUInt16LE mem v offset bb) bb off (off + 2)"
      using c by (rule fx(3))
    show "write_grows (writeUInt16BE mem v offset bb) bb off (off + 2)"
      using c by (rule fx(4))
  }
  {
    assume c: "capacity bb < off + 4"
    show "write_grows (writeInt32BE mem v offset bb) bb off (off + 4)"
      using c by (rule fx(5))
    show "write_grows (writeUInt32BE mem v offset bb) bb off (off + 4)"
      using c by (rule fx(6))
  }
  {
    assume "capacity bb < off + calculateVarint32 v"
    then show "write_grows (writeVarint32 mem v offset bb) bb off (off + calculateVarint32 v)"
      by (rule writeVarint32_grows [OF b])
  }
  {
    assume "capacity bb < off + calculateVarint32 (zigZagEncode32 v)"
    then have "write_grows (writeVarint32 mem (zigZagEncode32 v) offset bb) bb off
                 (off + calculateVarint32 (zigZagEncode32 v))"
      by (rule writeVarint32_grows [OF b])
    then show "write_grows (writeVarint32ZigZag mem v offset bb) bb off
                 (off + calculateVarint32 (zigZagEncode32 v))"
      by (simp add: writeVarint32ZigZag_def)
  }
  {
    assume "0 \<notin> set str \<and> capacity bb < off + (int (length (enc str)) + 1)
             \<and> off + (int (length (enc str)) + 1) < 2 ^ 31"
    then show "write_grows (writeCString mem enc str offset bb) bb off
             (off + (int (length (enc str)) + 1))"
      using writeCString_grows [OF b, of str enc mem] by blast
  }
  {
    assume s: "h this = bb \<and> 0 < woffset (h source) - roffset (h source) \<and> 0 \<le> roffset (h source)
             \<and> roffset (h source) \<le> capacity (h source)
             \<and> capacity bb < off + (woffset (h source) - roffset (h source))
             \<and> off + (woffset (h source) - roffset (h source)) < 2 ^ 31"
    then have t: "h this = bb"
      by blast
    from s b
    have "write_grows (fst (write' mem this source offset h),
                        snd (write' mem this source offset h) this)
             (h this) off (off + (woffset (h source) - roffset (h source)))"
      unfolding t [symmetric] by (intro write_from_buffer_grows) blast+
    then show "write_grows (fst (write' mem this source offset h),
                        snd (write' mem this source offset h) this)
             bb off (off + (woffset (h source) - roffset (h source)))"
      by (simp add: t)
  }
  {
    assume "capacity bb < off + int (length buf) \<and> off + int (length buf) < 2 ^ 31"
    then show "write_grows (writeBuffer mem buf offset bb) bb off (off + int (length buf))"
      using writeBuffer_grows [OF b, of buf mem] by blast
  }
qed

theorem capacity_growth_policy_witness:
  "(capacity \<lparr>buffer = [0x01, 0x02], woffset = 0, roffset = 0, noAssert = False\<rparr> < 5
    \<and> capacity \<lparr>buffer = [0x01, 0x02], woffset = 0, roffset = 0, noAssert = False\<rparr> < 2 ^ 30
    \<and> (5 :: int) < 2 ^ 31)
   \<and> (\<exists>buf. ensureCapacity zeroed 5 \<lparr>buffer = [0x01, 0x02], woffset = 0, roffset = 0, noAssert = False\<rparr>
               = (Inr (), \<lparr>buffer = buf, woffset = 0, roffset = 0, noAssert = False\<rparr>)
           \<and> int (length buf) = 5 \<and> take 2 buf = [0x01, 0x02])
   \<and> ((1 :: int) \<le> capacity \<lparr>buffer = [0x01, 0x02], woffset = 0, roffset = 0, noAssert = False\<rparr>
        \<and> capacity \<lparr>buffer = [0x01, 0x02], woffset = 0, roffset = 0, noAssert = False\<rparr> < 1 + 4)
   \<and> write_grows
         (writeUInt32BE zeroed 0x12345678 (Some 1)
            \<lparr>buffer = [0x01, 0x02], woffset = 0, roffset = 0, noAssert = False\<rparr>)
         \<lparr>buffer = [0x01, 0x02], woffset = 0, roffset = 0, noAssert = False\<rparr> 1 5
   \<and> write_grows
         (fst (write' zeroed 0 1 (Some 1)
                 (objects [\<lparr>buffer = [0x01, 0x02], woffset = 0, roffset = 0, noAssert = False\<rparr>,
                           \<lparr>buffer = [0x56, 0x78], woffset = 2, roffset = 0, noAssert = False\<rparr>])),
          snd (write' zeroed 0 1 (Some 1)
                 (objects [\<lparr>buffer = [0x01, 0x02], woffset = 0, roffset = 0, noAssert = False\<rparr>,
                           \<lparr>buffer = [0x56, 0x78], woffset = 2, roffset = 0, noAssert = False\<rparr>])) 0)
         \<lparr>buffer = [0x01, 0x02], woffset = 0, roffset = 0, noAssert = False\<rparr> 1 3"
proof -
  let ?bb = "\<lparr>buffer = [0x01, 0x02], woffset = 0, roffset = 0, noAssert = False\<rparr>"
  let ?src = "\<lparr>buffer = [0x56, 0x78], woffset = 2, roffset = 0, noAssert = False\<rparr>"
  let ?h = "objects [?bb, ?src]"
  note T = capacity_growth_policy [where mem = zeroed and c = 5 and off = 1 and offset = "Some 1"
      and v = "0x12345678" and bb = ?bb and h = ?h and this = 0 and source = 1 and n = 4
      and str = "[]" and enc = "\<lambda>s. []" and buf = "[]"]
  have a: "capacity ?bb = 2"
    by (simp add: capacity_def)
  have h1: "capacity ?bb < 5 \<and> capacity ?bb < 2 ^ 30 \<and> (5 :: int) < 2 ^ 31"
    by (simp add: a)
  have h2: "(1 :: int) = (case Some 1 of None \<Rightarrow> woffset ?bb | Some x \<Rightarrow> x) \<and> (0 :: int) \<le> 1
      \<and> 1 \<le> capacity ?bb \<and> capacity ?bb < 2 ^ 30"
    by (simp add: a)
  have h3: "capacity ?bb < 1 + 4"
    by (simp add: a)
  have h4: "?h 0 = ?bb \<and> 0 < woffset (?h 1) - roffset (?h 1) \<and> 0 \<le> roffset (?h 1)
      \<and> roffset (?h 1) \<le> capacity (?h 1)
      \<and> capacity ?bb < 1 + (woffset (?h 1) - roffset (?h 1))
      \<and> 1 + (woffset (?h 1) - roffset (?h 1)) < 2 ^ 31"
    by (simp add: objects_def capacity_def)
  from T h1
  have "\<exists>buf. ensureCapacity zeroed 5 ?bb = (Inr (), ?bb\<lparr>buffer := buf\<rparr>)
           \<and> int (length buf) = max (2 * capacity ?bb) 5
           \<and> take (length (buffer ?bb)) buf = buffer ?bb"
    by blast
  then have e: "\<exists>buf. ensureCapacity zeroed 5 ?bb
               = (Inr (), \<lparr>buffer = buf, woffset = 0, roffset = 0, noAssert = False\<rparr>)
           \<and> int (length buf) = 5 \<and> take 2 buf = [0x01, 0x02]"
    by (simp add: a numeral_2_eq_2)
  from T h2 h3
  have "write_grows (writeUInt32BE zeroed 0x12345678 (Some 1) ?bb) ?bb 1 (1 + 4)"
    by blast
  then have w: "write_grows (writeUInt32BE zeroed 0x12345678 (Some 1) ?bb) ?bb 1 5"
    by simp
  from T h2 h4
  have "write_grows (fst (write' zeroed 0 1 (Some 1) ?h), snd (write' zeroed 0 1 (Some 1) ?h) 0)
          ?bb 1 (1 + (woffset (?h 1) - roffset (?h 1)))"
    by blast
  then have x: "write_grows (fst (write' zeroed 0 1 (Some 1) ?h), snd (write' zeroed 0 1 (Some 1) ?h) 0)
          ?bb 1 3"
    by (simp add: objects_def)
  show ?thesis
    using e w x by (simp add: a)
qed

text \<open>
  Claim C8, as the specification states it: after \<open>compact(begin, end)\<close> the read cursor is
  0 and the write cursor is lower by \<open>begin\<close>, also for \<open>begin = 0\<close>, \<open>end = capacity\<close> and
  for an explicit \<open>begin\<close>. Three calls where it is not so: the range that is the whole store
  returns early and keeps \<open>roffset = 1\<close>; with \<open>begin = 2\<close> beside \<open>roffset = 1\<close> the write
  cursor goes from 4 to 3; the empty range sets the write cursor to 0.
\<close>

theorem compact_counterexample:
  "compact zeroed (Some 0) (Some 3) \<lparr>buffer = [0x01, 0x02, 0x03], woffset = 3, roffset = 1, noAssert = False\<rparr>
     = (Inr (), \<lparr>buffer = [0x01, 0x02, 0x03], woffset = 3, roffset = 1, noAssert = False\<rparr>)
   \<and> compact zeroed (Some 2) (Some 4)
       \<lparr>buffer = [0x01, 0x02, 0x03, 0x04], woffset = 4, roffset = 1, noAssert = False\<rparr>
     = (Inr (), \<lparr>buffer = [0x03, 0x04], woffset = 3, roffset = 0, noAssert = False\<rparr>)
   \<and> compact zeroed (Some 1) (Some 1)
       \<lparr>buffer = [0x01, 0x02, 0x03], woffset = 3, roffset = 1, noAssert = False\<rparr>
     = (Inr (), \<lparr>buffer = [], woffset = 0, roffset = 0, noAssert = False\<rparr>)"
  by code_simp

text \<open>
  Claim C8, amended. For a valid range \<open>0 \<le> begin \<le> end \<le> capacity\<close> (each defaulting to
  the read cursor and to the capacity), \<open>compact\<close> succeeds and leaves a store of exactly
  \<open>end - begin\<close> bytes holding the former bytes of the range. When \<open>begin = 0\<close> and
  \<open>end = capacity\<close> the buffer is left as it is, cursors included. Otherwise the read
  cursor is reset to 0; the write cursor is 0 when the range is empty, and is lowered by
  \<open>begin\<close> when \<open>begin\<close> is the read cursor, as it is by default.
\<close>

theorem compact_range:
  assumes "b = (case begin' of None \<Rightarrow> roffset bb | Some x \<Rightarrow> x)"
    and "e = (case end' of None \<Rightarrow> capacity bb | Some x \<Rightarrow> x)"
    and "0 \<le> b" and "b \<le> e" and "e \<le> capacity bb" and "capacity bb < 2 ^ 32"
  shows "\<exists>bb'. compact mem begin' end' bb = (Inr (), bb')
           \<and> buffer bb' = drop (nat b) (take (nat e) (buffer bb))
           \<and> capacity bb' = e - b
           \<and> (b = 0 \<and> e = capacity bb \<longrightarrow> bb' = bb)
           \<and> (\<not> (b = 0 \<and> e = capacity bb) \<longrightarrow>
                roffset bb' = 0
                \<and> (b = e \<longrightarrow> woffset bb' = 0)
                \<and> (b < e \<and> b = roffset bb \<longrightarrow> woffset bb' = woffset bb - b))"
proof -
  have ub: "toUint32 b = b" and ue: "toUint32 e = e"
    using assms(3-6) by (simp_all add: toUint32_id)
  have b0: "(case begin' of None \<Rightarrow> roffset bb | Some x \<Rightarrow> x) = b"
    and e0: "(case end' of None \<Rightarrow> int (length (buffer bb)) | Some x \<Rightarrow> x) = e"
    using assms(1,2) by (cases begin'; cases end'; simp add: capacity_def)+
  consider "b = 0 \<and> e = capacity bb" | "\<not> (b = 0 \<and> e = capacity bb)" "b = e"
    | "\<not> (b = 0 \<and> e = capacity bb)" "b < e"
    using assms(4) by linarith
  then show ?thesis
  proof cases
    case 1
    have "compact mem begin' end' bb = (Inr (), bb)"
      by (simp only: compact_def Let_def b0 e0 ub ue) (use 1 assms(3,4,5) in \<open>simp add: capacity_def\<close>)
    then show ?thesis
      using 1 by (simp add: capacity_def)
  next
    case 2
    have "compact mem begin' end' bb = (Inr (), bb\<lparr>buffer := [], roffset := 0, woffset := 0\<rparr>)"
      by (simp only: compact_def Let_def b0 e0 ub ue) (use 2 assms(3,4,5) in \<open>auto simp: capacity_def\<close>)
    then show ?thesis
      using 2 assms(3) by (auto simp: capacity_def)
  next
    case 3
    let ?chunk = "drop (nat b) (take (nat e) (buffer bb))"
    have cl: "length ?chunk = nat (e - b)"
      using assms(3,4,5) by (simp add: capacity_def min_def) linarith
    have "blit (allocUnsafe mem (nat (e - b))) 0 ?chunk = ?chunk"
      by (rule blit_whole) (simp only: cl length_allocUnsafe)
    then have bc: "Buffer_copy (buffer bb) (allocUnsafe mem (nat (e - b))) 0 b e = Inr ?chunk"
      using assms(3,4,5) by (simp add: Buffer_copy_def capacity_def)
    have "compact mem begin' end' bb
            = (Inr (), bb\<lparr>buffer := ?chunk, woffset := woffset bb - roffset bb, roffset := 0\<rparr>)"
      by (simp only: compact_def Let_def b0 e0 ub ue)
         (use 3 assms(3,4,5) in \<open>auto simp: capacity_def bc\<close>)
    then show ?thesis
      using 3 cl assms(4) by (auto simp: capacity_def)
  qed
qed

theorem compact_range_witness:
  "((1 :: int) = (case None of None \<Rightarrow> roffset \<lparr>buffer = [0x01, 0x02], woffset = 2, roffset = 1, noAssert = False\<rparr> | Some x \<Rightarrow> x)
    \<and> (2 :: int) = (case None of None \<Rightarrow> capacity \<lparr>buffer = [0x01, 0x02], woffset = 2, roffset = 1, noAssert = False\<rparr> | Some x \<Rightarrow> x))
   \<and> (\<exists>bb'. compact zeroed None None \<lparr>buffer = [0x01, 0x02], woffset = 2, roffset = 1, noAssert = False\<rparr>
               = (Inr (), bb')
           \<and> buffer bb' = [0x02] \<and> capacity bb' = 1 \<and> roffset bb' = 0 \<and> woffset bb' = 1)"
  using compact_range [where b = 1 and begin' = None and e = 2 and end' = None and mem = zeroed
      and bb = "\<lparr>buffer = [0x01, 0x02], woffset = 2, roffset = 1, noAssert = False\<rparr>"]
  by (simp add: capacity_def)

text \<open>
  Claim C9. With assertions enabled \<open>writeCString\<close> raises a type error for every string
  that contains a NUL code unit, at any position, and leaves the buffer as it was.
  \<open>readCString\<close> scans forward from its offset: when no zero byte follows before the end of
  the store it raises a range error, and when the first zero byte comes after the bytes
  \<open>pre\<close> it returns the decoding of \<open>pre\<close> and consumes \<open>length pre + 1\<close> bytes.
\<close>

theorem cstring_errors:
  "(\<not> noAssert bb \<and> 0 \<in> set str \<longrightarrow> writeCString mem enc str offset bb = (Inl TypeError, bb))
   \<and> (start = (case offset of None \<Rightarrow> roffset bb | Some x \<Rightarrow> x) \<and> 0 \<le> start \<and> start < 2 ^ 32
        \<and> 0 \<notin> set (drop (nat start) (buffer bb)) \<longrightarrow>
        readCString decode offset bb = (Inl RangeError, bb))
   \<and> (start = (case offset of None \<Rightarrow> roffset bb | Some x \<Rightarrow> x) \<and> 0 \<le> start \<and> start < 2 ^ 32
        \<and> drop (nat start) (buffer bb) = pre @ 0 # rest \<and> 0 \<notin> set pre \<longrightarrow>
        readCString decode offset bb
          = (case offset of
               None \<Rightarrow> (Inr (Str (decode pre)), bb\<lparr>roffset := start + int (length pre) + 1\<rparr>)
             | Some _ \<Rightarrow> (Inr (SString (decode pre) (int (length pre) + 1)), bb)))"
proof (intro conjI impI)
  assume "\<not> noAssert bb \<and> 0 \<in> set str"
  then show "writeCString mem enc str offset bb = (Inl TypeError, bb)"
    by (simp add: writeCString_def Let_def)
next
  assume a: "start = (case offset of None \<Rightarrow> roffset bb | Some x \<Rightarrow> x) \<and> 0 \<le> start \<and> start < 2 ^ 32
        \<and> 0 \<notin> set (drop (nat start) (buffer bb))"
  then have u: "toUint32 start = start"
    by (intro toUint32_id) blast+
  from a have "0 \<le> start" and "0 \<notin> set (drop (nat start) (buffer bb))"
    by blast+
  then have "readCString_loop (buffer bb) start = Inl RangeError"
    by (rule readCString_loop_none)
  then show "readCString decode offset bb = (Inl RangeError, bb)"
    using a u by (cases offset) (auto simp: readCString_def Let_def)
next
  assume a: "start = (case offset of None \<Rightarrow> roffset bb | Some x \<Rightarrow> x) \<and> 0 \<le> start \<and> start < 2 ^ 32
        \<and> drop (nat start) (buffer bb) = pre @ 0 # rest \<and> 0 \<notin> set pre"
  then have u: "toUint32 start = start"
    by (intro toUint32_id) blast+
  have d: "drop (nat start) (buffer bb) = pre @ 0 # rest"
    using a by blast
  from a have "0 \<le> start" and "0 \<notin> set pre"
    by blast+
  with d have lp: "readCString_loop (buffer bb) start = Inr (start + int (length pre) + 1)"
    by (intro readCString_loop_found)
  have "length (drop (nat start) (buffer bb)) = length pre + 1 + length rest"
    by (simp add: d)
  then have inr: "start + 1 \<le> int (length (buffer bb))"
    using a by simp
  have "Buffer_slice (buffer bb) start (start + int (length pre))
          = take (length pre) (drop (nat start) (buffer bb))"
    using a by (simp add: Buffer_slice_def drop_take nat_add_distrib)
  then have sl: "Buffer_slice (buffer bb) start (start + int (length pre)) = pre"
    by (simp add: d)
  show "readCString decode offset bb
          = (case offset of
               None \<Rightarrow> (Inr (Str (decode pre)), bb\<lparr>roffset := start + int (length pre) + 1\<rparr>)
             | Some _ \<Rightarrow> (Inr (SString (decode pre) (int (length pre) + 1)), bb))"
    using a u lp inr sl by (cases offset) (auto simp: readCString_def Let_def)
qed

theorem cstring_errors_witness:
  "writeCString zeroed (map of_nat) [0x61, 0, 0x62] None
       \<lparr>buffer = [0x01], woffset = 0, roffset = 0, noAssert = False\<rparr>
     = (Inl TypeError, \<lparr>buffer = [0x01], woffset = 0, roffset = 0, noAssert = False\<rparr>)
   \<and> readCString (map unat) None \<lparr>buffer = [0x61, 0x62], woffset = 2, roffset = 0, noAssert = False\<rparr>
     = (Inl RangeError, \<lparr>buffer = [0x61, 0x62], woffset = 2, roffset = 0, noAssert = False\<rparr>)
   \<and> readCString (map unat) None
       \<lparr>buffer = [0x61, 0x62, 0x00, 0x05], woffset = 4, roffset = 0, noAssert = False\<rparr>
     = (Inr (Str [0x61, 0x62]),
        \<lparr>buffer = [0x61, 0x62, 0x00, 0x05], woffset = 4, roffset = 3, noAssert = False\<rparr>)"
  using cstring_errors [where str = "[0x61, 0, 0x62]" and mem = zeroed and enc = "map of_nat"
      and offset = None and start = 0 and decode = "map unat" and pre = "[]" and rest = "[]"
      and bb = "\<lparr>buffer = [0x01], woffset = 0, roffset = 0, noAssert = False\<rparr>"]
    cstring_errors [where str = "[]" and mem = zeroed and enc = "map of_nat"
      and offset = None and start = 0 and decode = "map unat" and pre = "[]" and rest = "[]"
      and bb = "\<lparr>buffer = [0x61, 0x62], woffset = 2, roffset = 0, noAssert = False\<rparr>"]
    cstring_errors [where str = "[]" and mem = zeroed and enc = "map of_nat"
      and offset = None and start = 0 and decode = "map unat" and pre = "[0x61, 0x62]"
      and rest = "[0x05]"
      and bb = "\<lparr>buffer = [0x61, 0x62, 0x00, 0x05], woffset = 4, roffset = 0, noAssert = False\<rparr>"]
  by simp

text \<open>
  Claim C10, as the specification states it: for every source buffer the absolute \<open>write\<close>
  leaves the read cursor of the target unchanged. Nothing keeps the source from being the
  target itself. The buffer holding \<open>01 02\<close> between its cursors 0 and 2, written to itself
  at offset 2, has its own read cursor at 2 afterwards.
\<close>

theorem write_self_counterexample:
  "fst (write' zeroed 0 0 (Some 2)
          (objects [\<lparr>buffer = [0x01, 0x02, 0x00, 0x00], woffset = 2, roffset = 0, noAssert = False\<rparr>]))
     = Inr ()
   \<and> snd (write' zeroed 0 0 (Some 2)
            (objects [\<lparr>buffer = [0x01, 0x02, 0x00, 0x00], woffset = 2, roffset = 0, noAssert = False\<rparr>])) 0
     = \<lparr>buffer = [0x01, 0x02, 0x01, 0x02], woffset = 2, roffset = 2, noAssert = False\<rparr>"
  by code_simp

text \<open>
  Claim C10, amended. \<open>write\<close> with an explicit target offset consumes the source: for a
  source buffer with readable length \<open>L = woffset - roffset > 0\<close> (its read cursor inside its
  store) and a valid target offset (the target store below \<open>2 ^ 30\<close> bytes, the offset plus
  \<open>L\<close> below \<open>2 ^ 31\<close>), the call succeeds, advances the read cursor of the source by \<open>L\<close>,
  leaves the write cursors of the source and the target unchanged, and leaves the read
  cursor of the target unchanged when the target is another buffer than the source (a
  buffer written to itself is its own source, and its read cursor advances by \<open>L\<close>). Writing
  the same source again writes nothing.
\<close>

theorem write_absolute_consumes_source:
  assumes "0 < woffset (h source) - roffset (h source)"
    and "0 \<le> roffset (h source)" and "roffset (h source) \<le> capacity (h source)"
    and "0 \<le> off" and "off \<le> capacity (h target)" and "capacity (h target) < 2 ^ 30"
    and "off + (woffset (h source) - roffset (h source)) < 2 ^ 31"
  shows "\<exists>h'. write' mem target source (Some off) h = (Inr (), h')
            \<and> roffset (h' source) = roffset (h source) + (woffset (h source) - roffset (h source))
            \<and> woffset (h' source) = woffset (h source)
            \<and> woffset (h' target) = woffset (h target)
            \<and> (target \<noteq> source \<longrightarrow> roffset (h' target) = roffset (h target))
            \<and> write' mem target source (Some off) h' = (Inr (), h')"
proof -
  let ?L = "woffset (h source) - roffset (h source)"
  let ?w = "write' mem target source (Some off) h"
  have u: "toUint32 off = off"
    using assms(4,5,6) by (intro toUint32_id) (auto simp: capacity_def)
  have len: "int (length (buffer (h target))) < 2 ^ 30"
    using assms(6) by (simp add: capacity_def)
  from grow_result [OF assms(7) len, of mem]
  obtain buf where g: "grow mem (off + ?L) (h target) = (Inr (), (h target)\<lparr>buffer := buf\<rparr>)"
    and l: "int (length buf) = (if off + ?L > int (length (buffer (h target)))
                                then max (2 * int (length (buffer (h target)))) (off + ?L)
                                else int (length (buffer (h target))))"
    by blast
  have fits: "off \<le> int (length buf)" "capacity (h target) \<le> int (length buf)"
    using l assms(1,5) by (auto simp: capacity_def split: if_splits)
  have ok: "fst ?w = Inr ()"
  proof (cases "source = target")
    case True
    then show ?thesis
      using assms(1,2,3,4,5) fits g by (simp add: write'_def Let_def u Buffer_copy_def capacity_def)
  next
    case False
    then show ?thesis
      using assms(1,2,3,4,5) fits g by (simp add: write'_def Let_def u Buffer_copy_def capacity_def)
  qed
  then have nl: "\<not> isl (fst ?w)"
    by simp
  have r: "roffset (snd ?w source) = roffset (h source) + ?L"
    using write_cursors(1) [OF nl] assms(1) by simp
  have w: "woffset (snd ?w target) = woffset (h target)"
    using write_cursors(2) [OF nl] by simp
  have ws: "woffset (snd ?w source) = woffset (h source)"
    using write_cursors(4) [OF nl] w by (cases "target = source") simp_all
  have rt: "target \<noteq> source \<Longrightarrow> roffset (snd ?w target) = roffset (h target)"
    using write_cursors(3) [OF nl] by simp
  obtain b where fr: "buffer (snd ?w target) = b" "length (buffer (h target)) \<le> length b"
      "noAssert (snd ?w target) = noAssert (h target)"
  proof (cases "source = target")
    case True
    then show ?thesis
      using that assms(1,2,3,4,5) fits g
      by (simp add: write'_def Let_def u Buffer_copy_def capacity_def)
  next
    case False
    then show ?thesis
      using that assms(1,2,3,4,5) fits g
      by (simp add: write'_def Let_def u Buffer_copy_def capacity_def)
  qed
  have again: "write' mem target source (Some off) (snd ?w) = (Inr (), snd ?w)"
    using r ws fr assms(4,5) by (simp add: write'_def Let_def u capacity_def)
  show ?thesis
    using ok r w ws rt again by (intro exI [of _ "snd ?w"]) (simp add: prod_eq_iff)
qed

theorem write_absolute_consumes_source_witness:
  "((0 :: int) < woffset (objects [\<lparr>buffer = [0x12, 0x34], woffset = 2, roffset = 2, noAssert = False\<rparr>,
                                  \<lparr>buffer = [0x56, 0x78], woffset = 2, roffset = 0, noAssert = False\<rparr>] 1)
                 - roffset (objects [\<lparr>buffer = [0x12, 0x34], woffset = 2, roffset = 2, noAssert = False\<rparr>,
                                     \<lparr>buffer = [0x56, 0x78], woffset = 2, roffset = 0, noAssert = False\<rparr>] 1)
    \<and> (1 :: int) \<le> capacity (objects [\<lparr>buffer = [0x12, 0x34], woffset = 2, roffset = 2, noAssert = False\<rparr>,
                                       \<lparr>buffer = [0x56, 0x78], woffset = 2, roffset = 0, noAssert = False\<rparr>] 0)
    \<and> (0 :: nat) \<noteq> 1)
   \<and> (\<exists>h'. write' zeroed 0 1 (Some 1)
               (objects [\<lparr>buffer = [0x12, 0x34], woffset = 2, roffset = 2, noAssert = False\<rparr>,
                         \<lparr>buffer = [0x56, 0x78], woffset = 2, roffset = 0, noAssert = False\<rparr>])
             = (Inr (), h')
           \<and> roffset (h' 1) = 2 \<and> woffset (h' 1) = 2
           \<and> woffset (h' 0) = 2 \<and> roffset (h' 0) = 2
           \<and> write' zeroed 0 1 (Some 1) h' = (Inr (), h'))"
  using write_absolute_consumes_source
    [where h = "objects [\<lparr>buffer = [0x12, 0x34], woffset = 2, roffset = 2, noAssert = False\<rparr>,
                         \<lparr>buffer = [0x56, 0x78], woffset = 2, roffset = 0, noAssert = False\<rparr>]"
       and source = 1 and target = 0 and off = 1 and mem = zeroed]
  by (simp add: capacity_def objects_def)





end
